theory Spec2Isabelle
  imports Complex_Main "HOL-Library.Word" "HOL-Library.Sublist"
begin

unbundle bit_operations_syntax

section \<open>Machine types of \<^verbatim>\<open>encode.cuh\<close>\<close>

text \<open>
  \<^verbatim>\<open>int\<close> and \<^verbatim>\<open>uint\<close> are 32-bit words: \<open>+\<close>, \<open>-\<close> and \<open>*\<close> wrap, \<open><\<close> is the unsigned
  comparison and \<open><s\<close> the signed one.  \<^verbatim>\<open>long long\<close> values are 64-bit words.
\<close>

type_synonym uint = "32 word"
type_synonym cint = "32 word"
type_synonym uint64 = "64 word"

text \<open>
  Modelled from the spec: the type \<^verbatim>\<open>Word\<close> is declared in \<^verbatim>\<open>shared.h\<close>, which is not
  among the sources.  The spec gives the stream word as an unsigned integer of \<open>W\<close> bits,
  typically 64; \<^verbatim>\<open>write_bits\<close> takes and returns \<^verbatim>\<open>unsigned long long\<close>, so \<open>W = 64\<close>.
\<close>

type_synonym Word = "64 word"

section \<open>Negabinary map\<close>

text \<open>
  The source has one overload per width, with the mask \<^verbatim>\<open>0xaaaaaaaa\<close> for \<^verbatim>\<open>int\<close> and
  \<^verbatim>\<open>0xaaaaaaaaaaaaaaaa\<close> for \<^verbatim>\<open>long long\<close>.  The mask below is the 64-bit constant cut to the
  width of the word, so that one definition stands for both overloads.
\<close>

definition nbmask :: "'a::len word" where
  "nbmask = 0xaaaaaaaaaaaaaaaa"

definition int2uint :: "'a::len word \<Rightarrow> 'a word" where
  "int2uint x = (x + nbmask) XOR nbmask"

section \<open>Number of bit planes\<close>

text \<open>
  \<^verbatim>\<open>MIN\<close> and \<^verbatim>\<open>MAX\<close> are macros of \<^verbatim>\<open>shared.h\<close>; they are taken as the usual conditional
  expressions on \<^verbatim>\<open>int\<close>, which compare signed values (the names \<open>MIN\<close> and \<open>MAX\<close> are
  binders of HOL, hence the suffix).
\<close>

definition MIN_int :: "cint \<Rightarrow> cint \<Rightarrow> cint" where
  "MIN_int x y = (if x <s y then x else y)"

definition MAX_int :: "cint \<Rightarrow> cint \<Rightarrow> cint" where
  "MAX_int x y = (if y <s x then x else y)"

definition precision :: "cint \<Rightarrow> cint \<Rightarrow> cint \<Rightarrow> cint" where
  "precision maxexp maxprec minexp = MIN_int maxprec (MAX_int 0 (maxexp - minexp + 8))"

section \<open>Padding of partial blocks\<close>

text \<open>
  The array behind the pointer \<^verbatim>\<open>p\<close> is a function from element offsets to scalars.
  The offsets \<^verbatim>\<open>k * s\<close> are products of \<^verbatim>\<open>uint\<close> values and wrap at \<open>2^32\<close>.  The
  \<^verbatim>\<open>switch\<close> falls through, so case \<open>n\<close> runs the assignments of every later case.
\<close>

definition pad_block :: "(nat \<Rightarrow> 'a::zero) \<Rightarrow> uint \<Rightarrow> uint \<Rightarrow> (nat \<Rightarrow> 'a)" where
  "pad_block p n s =
     (let p0 = (if n = 0 then p(unat (0 * s) := 0) else p);
          p1 = (if n \<le> 1 then p0(unat (1 * s) := p0 (unat (0 * s))) else p0);
          p2 = (if n \<le> 2 then p1(unat (2 * s) := p1 (unat (1 * s))) else p1);
          p3 = (if n \<le> 3 then p2(unat (3 * s) := p2 (unat (0 * s))) else p2)
      in p3)"

section \<open>Lifting transform\<close>

text \<open>
  The arithmetic of \<^verbatim>\<open>fwd_lift\<close> on the four values it loads.  \<^verbatim>\<open>>>=\<close> on a signed
  integer is the arithmetic shift; additions wrap.
\<close>

definition fwd_lift4 :: "'a::len word \<times> 'a word \<times> 'a word \<times> 'a word
    \<Rightarrow> 'a word \<times> 'a word \<times> 'a word \<times> 'a word" where
  "fwd_lift4 v = (case v of (x, y, z, w) \<Rightarrow>
     (let x = x + w; x = signed_drop_bit 1 x; w = w - x;
          z = z + y; z = signed_drop_bit 1 z; y = y - z;
          x = x + z; x = signed_drop_bit 1 x; z = z - x;
          w = w + y; w = signed_drop_bit 1 w; y = y - w;
          w = w + signed_drop_bit 1 y; y = y - signed_drop_bit 1 w
      in (x, y, z, w)))"

text \<open>
  \<^verbatim>\<open>fwd_lift<Int, s>(p)\<close> loads \<^verbatim>\<open>p[0], p[s], p[2s], p[3s]\<close> and stores the results back
  to the same four places.  The block is a list and \<open>off\<close> the offset of \<^verbatim>\<open>p\<close> in it.
\<close>

definition fwd_lift :: "nat \<Rightarrow> nat \<Rightarrow> 'a::len word list \<Rightarrow> 'a word list" where
  "fwd_lift s off p =
     (case fwd_lift4 (p ! off, p ! (off + s), p ! (off + 2 * s), p ! (off + 3 * s)) of
        (x, y, z, w) \<Rightarrow> p[off + 3 * s := w, off + 2 * s := z, off + s := y, off := x])"

text \<open>
  The inverse the spec describes: each step of \<^verbatim>\<open>fwd_lift\<close> undone, last step first, a
  halving undone by a doubling.  It is not part of the encoder.
\<close>

definition inv_lift4_spec :: "'a::len word \<times> 'a word \<times> 'a word \<times> 'a word
    \<Rightarrow> 'a word \<times> 'a word \<times> 'a word \<times> 'a word" where
  "inv_lift4_spec v = (case v of (x, y, z, w) \<Rightarrow>
     (let y = y + signed_drop_bit 1 w; w = w - signed_drop_bit 1 y;
          y = y + w; w = push_bit 1 w; w = w - y;
          z = z + x; x = push_bit 1 x; x = x - z;
          y = y + z; z = push_bit 1 z; z = z - y;
          w = w + x; x = push_bit 1 x; x = x - w
      in (x, y, z, w)))"

text \<open>
  The four sums that \<^verbatim>\<open>fwd_lift\<close> halves, in the order it forms them.  The transform
  loses the low bit of each.
\<close>

definition lift_sums :: "'a::len word \<times> 'a word \<times> 'a word \<times> 'a word \<Rightarrow> 'a word list" where
  "lift_sums v = (case v of (x, y, z, w) \<Rightarrow>
     (let s1 = x + w; x = signed_drop_bit 1 s1; w = w - x;
          s2 = z + y; z = signed_drop_bit 1 s2; y = y - z;
          s3 = x + z;
          s4 = w + y
      in [s1, s2, s3, s4]))"

section \<open>Block transform and reordering\<close>

text \<open>
  The template parameter \<^verbatim>\<open>BlockSize\<close>: \<^verbatim>\<open>transform\<close> is specialised for 4, 16 and 64
  only, so no other block size compiles.
\<close>

datatype block_size = BS4 | BS16 | BS64

fun BlockSize :: "block_size \<Rightarrow> nat" where
  "BlockSize BS4 = 4"
| "BlockSize BS16 = 16"
| "BlockSize BS64 = 64"

text \<open>The nested loops of \<^verbatim>\<open>fwd_xform\<close> become folds over the offsets they visit, in order.\<close>

fun fwd_xform :: "block_size \<Rightarrow> 'a::len word list \<Rightarrow> 'a word list" where
  "fwd_xform BS64 p =
     (let p = fold (fwd_lift 1) (concat (map (\<lambda>z. map (\<lambda>y. 4 * y + 16 * z) [0..<4]) [0..<4])) p;
          p = fold (fwd_lift 4) (concat (map (\<lambda>x. map (\<lambda>z. 16 * z + 1 * x) [0..<4]) [0..<4])) p;
          p = fold (fwd_lift 16) (concat (map (\<lambda>y. map (\<lambda>x. 1 * x + 4 * y) [0..<4]) [0..<4])) p
      in p)"
| "fwd_xform BS16 p =
     (let p = fold (fwd_lift 1) (map (\<lambda>y. 4 * y) [0..<4]) p;
          p = fold (fwd_lift 4) (map (\<lambda>x. 1 * x) [0..<4]) p
      in p)"
| "fwd_xform BS4 p = fwd_lift 1 0 p"

text \<open>
  The table \<^verbatim>\<open>get_perm<BlockSize>()\<close> is declared in \<^verbatim>\<open>shared.h\<close> and is not among the
  sources; it is the parameter \<open>perm\<close>.
\<close>

definition fwd_order :: "nat list \<Rightarrow> block_size \<Rightarrow> 'a::len word list \<Rightarrow> 'a word list" where
  "fwd_order perm bs iblock = map (\<lambda>i. int2uint (iblock ! (perm ! i))) [0..<BlockSize bs]"

section \<open>Block writer\<close>

text \<open>
  \<^verbatim>\<open>m_stream\<close> points into the shared buffer; the field holds the contents of that
  buffer, a function from word index to word, and every write returns the writer with
  the new contents.
\<close>

record BlockWriter =
  m_word_index :: uint
  m_start_bit :: uint
  m_current_bit :: uint
  m_maxbits :: cint
  m_stream :: "nat \<Rightarrow> Word"

definition atomicAdd :: "(nat \<Rightarrow> Word) \<Rightarrow> uint \<Rightarrow> Word \<Rightarrow> (nat \<Rightarrow> Word)" where
  "atomicAdd mem i v = mem(unat i := mem (unat i) + v)"

text \<open>The constructor. The product \<^verbatim>\<open>block_idx * maxbits\<close> is a \<^verbatim>\<open>uint\<close> and wraps.\<close>

definition BlockWriter_new :: "(nat \<Rightarrow> Word) \<Rightarrow> cint \<Rightarrow> uint \<Rightarrow> BlockWriter" where
  "BlockWriter_new stream maxbits block_idx =
     \<lparr> m_word_index = (block_idx * maxbits) div 64,
       m_start_bit = (block_idx * maxbits) mod 64,
       m_current_bit = 0,
       m_maxbits = maxbits,
       m_stream = stream \<rparr>"

text \<open>
  \<^verbatim>\<open>write_bits\<close> returns the writer and the value \<^verbatim>\<open>bits >> n_bits\<close>.  A shift by 64 or more
  yields 0, as the device computes it (\<open>push_bit\<close> and \<open>drop_bit\<close> do the same); the
  encoder reaches such a shift only with \<^verbatim>\<open>n_bits = 64\<close>, or with \<^verbatim>\<open>n_bits = 0\<close> at a word
  boundary, where \<^verbatim>\<open>seg_end\<close> wraps and the shifted value is 0.
\<close>

definition write_bits :: "BlockWriter \<Rightarrow> uint64 \<Rightarrow> uint \<Rightarrow> BlockWriter \<times> uint64" where
  "write_bits bw bits n_bits =
     (let wbits = 64 :: uint;
          seg_start = (m_start_bit bw + m_current_bit bw) mod wbits;
          write_index = m_word_index bw + (m_start_bit bw + m_current_bit bw) div wbits;
          seg_end = seg_start + n_bits - 1;
          shift = seg_start;
          left = push_bit (unat n_bits) (drop_bit (unat n_bits) bits);
          b = bits - left;
          add = push_bit (unat shift) b;
          mem = atomicAdd (m_stream bw) write_index add;
          straddle = (seg_start < 64 \<and> seg_end \<ge> 64);
          mem = (if straddle
                 then atomicAdd mem (write_index + 1) (drop_bit (64 - unat shift) b)
                 else mem)
      in (bw\<lparr>m_stream := mem, m_current_bit := m_current_bit bw + n_bits\<rparr>,
          drop_bit (unat n_bits) bits))"

definition write_bit :: "BlockWriter \<Rightarrow> uint \<Rightarrow> BlockWriter \<times> uint" where
  "write_bit bw bitv =
     (let wbits = 64 :: uint;
          seg_start = (m_start_bit bw + m_current_bit bw) mod wbits;
          write_index = m_word_index bw + (m_start_bit bw + m_current_bit bw) div wbits;
          shift = seg_start;
          add = push_bit (unat shift) (ucast bitv :: Word);
          mem = atomicAdd (m_stream bw) write_index add
      in (bw\<lparr>m_stream := mem, m_current_bit := m_current_bit bw + 1\<rparr>, bitv))"

section \<open>Bit-plane encoder\<close>

text \<open>Step 1 of the plane loop: bit \<open>k\<close> of coefficient \<open>i\<close> becomes bit \<open>i\<close> of \<open>x\<close>.\<close>

definition bit_plane :: "'a::len word list \<Rightarrow> uint \<Rightarrow> nat \<Rightarrow> uint64" where
  "bit_plane ublock k bsize =
     fold (\<lambda>i x. x + push_bit i (ucast (drop_bit (unat k) (ublock ! i) AND 1))) [0..<bsize] 0"

text \<open>
  The inner loop of step 3,
  \<^verbatim>\<open>for (; n < BlockSize - 1 && bits && (bits--, !stream.write_bit(x & 1u)); x >>= 1, n++)\<close>.
  The write happens in the loop condition: when the bit written is 1 the loop ends
  without the increment.
\<close>

function encode_unary :: "nat \<Rightarrow> BlockWriter \<times> uint \<times> uint64 \<times> uint
    \<Rightarrow> BlockWriter \<times> uint \<times> uint64 \<times> uint" where
  "encode_unary bsize (bw, bits, x, n) =
     (if n < word_of_nat bsize - 1 \<and> bits \<noteq> 0
      then (case write_bit bw (ucast (x AND 1)) of (bw', b) \<Rightarrow>
              if b = 0 then encode_unary bsize (bw', bits - 1, drop_bit 1 x, n + 1)
              else (bw', bits - 1, x, n))
      else (bw, bits, x, n))"
  by pat_completeness auto
termination
  by (relation "measure (\<lambda>(bsize, bw, bits, x, n). unat bits)") (auto simp: unat_minus_one unat_gt_0)

declare encode_unary.simps [simp del]

text \<open>
  The outer loop of step 3,
  \<^verbatim>\<open>for (; n < BlockSize && bits && (bits--, stream.write_bit(!!x)); x >>= 1, n++)\<close>,
  whose body is the inner loop.
\<close>

function encode_group :: "nat \<Rightarrow> BlockWriter \<times> uint \<times> uint64 \<times> uint
    \<Rightarrow> BlockWriter \<times> uint \<times> uint64 \<times> uint" where
  "encode_group bsize (bw, bits, x, n) =
     (if n < word_of_nat bsize \<and> bits \<noteq> 0
      then (case write_bit bw (if x \<noteq> 0 then 1 else 0) of (bw1, b) \<Rightarrow>
              if b \<noteq> 0
              then (case encode_unary bsize (bw1, bits - 1, x, n) of (bw2, bits2, x2, n2) \<Rightarrow>
                      encode_group bsize (bw2, bits2, drop_bit 1 x2, n2 + 1))
              else (bw1, bits - 1, x, n))
      else (bw, bits, x, n))"
  by pat_completeness auto
termination
proof -
  have le: "unat bits' \<le> unat bits"
    if "(bw', bits', x', n') = encode_unary bsize (bw, bits, x, n)"
    for bsize bw bits x n bw' bits' x' n'
    using that
  proof (induction bsize "(bw, bits, x, n)" arbitrary: bw bits x n rule: encode_unary.induct)
    case (1 bsize bw bits x n)
    show ?case
    proof (cases "n < word_of_nat bsize - 1 \<and> bits \<noteq> 0")
      case True
      obtain bw1 b where wb: "write_bit bw (ucast (x AND 1)) = (bw1, b)" by force
      show ?thesis
      proof (cases "b = 0")
        case b0: True
        with True wb "1.prems"
        have "(bw', bits', x', n') = encode_unary bsize (bw1, bits - 1, drop_bit 1 x, n + 1)"
          by (simp add: encode_unary.simps [of bsize bw])
        from "1.hyps" [OF True wb [symmetric] b0 this]
        have "unat bits' \<le> unat (bits - 1)" .
        then show ?thesis using True by (simp add: unat_minus_one)
      next
        case False
        with True wb "1.prems" have "bits' = bits - 1"
          by (simp add: encode_unary.simps [of bsize bw])
        then show ?thesis using True by (simp add: unat_minus_one)
      qed
    next
      case False
      with "1.prems" show ?thesis by (auto simp: encode_unary.simps [of bsize bw])
    qed
  qed
  have less: "unat b < unat bits" if "bits \<noteq> 0" "unat b \<le> unat (bits - 1)" for b bits :: uint
    using that unat_gt_0 [of bits] by (simp add: unat_minus_one)
  show ?thesis
    by (relation "measure (\<lambda>(bsize, bw, bits, x, n). unat bits)")
       (auto dest!: le intro: less)
qed

declare encode_group.simps [simp del]

text \<open>
  The plane loop, \<^verbatim>\<open>for (uint k = intprec, n = 0; bits && k-- > kmin;)\<close>.  The test
  compares \<open>k\<close> before the decrement and the body runs with \<open>k - 1\<close>.  The function
  returns the writer, the bits left and \<open>n\<close>.
\<close>

function encode_planes :: "nat \<Rightarrow> uint \<Rightarrow> 'a::len word list
    \<Rightarrow> BlockWriter \<times> uint \<times> uint \<times> uint \<Rightarrow> BlockWriter \<times> uint \<times> uint" where
  "encode_planes bsize kmin ublock (bw, bits, k, n) =
     (if bits \<noteq> 0 \<and> k > kmin
      then (let k = k - 1;
                x = bit_plane ublock k bsize;
                m = min n bits;
                bits = bits - m
            in case write_bits bw x m of (bw1, x) \<Rightarrow>
               case encode_group bsize (bw1, bits, x, n) of (bw2, bits, x, n) \<Rightarrow>
                 encode_planes bsize kmin ublock (bw2, bits, k, n))
      else (bw, bits, n))"
  by pat_completeness auto
termination
proof -
  have less: "unat (k - 1) < unat k" if "unat a < unat k" for a k :: uint
    using that by (cases "k = 0") (simp_all add: unat_minus_one unat_gt_0)
  show ?thesis
    by (relation "measure (\<lambda>(bsize, kmin, ublock, bw, bits, k, n). unat k)")
       (auto simp: word_less_nat_alt intro: less)
qed

declare encode_planes.simps [simp del]

text \<open>
  \<^verbatim>\<open>encode_block\<close>.  \<^verbatim>\<open>intprec\<close> is the width of \<^verbatim>\<open>UInt\<close>; the comparison
  \<^verbatim>\<open>intprec > maxprec\<close> is unsigned, and \<^verbatim>\<open>uint bits = maxbits\<close> reads the \<^verbatim>\<open>int\<close> as unsigned.
\<close>

definition encode_block :: "block_size \<Rightarrow> nat list \<Rightarrow> BlockWriter \<Rightarrow> cint \<Rightarrow> cint
    \<Rightarrow> 'a::len word list \<Rightarrow> BlockWriter" where
  "encode_block bs perm stream maxbits maxprec iblock =
     (let iblock = fwd_xform bs iblock;
          ublock = fwd_order perm bs iblock;
          intprec = (word_of_nat LENGTH('a) :: uint);
          kmin = (if intprec > maxprec then intprec - maxprec else 0);
          bits = maxbits
      in fst (encode_planes (BlockSize bs) kmin ublock (stream, bits, intprec, 0)))"

section \<open>Floating-point scalars\<close>

text \<open>
  The template parameter \<^verbatim>\<open>Scalar\<close> of the floating-point driver is \<^verbatim>\<open>float\<close> or
  \<^verbatim>\<open>double\<close>.

  Modelled from the spec: \<^verbatim>\<open>get_ebias\<close>, \<^verbatim>\<open>get_ebits\<close> and \<^verbatim>\<open>get_precision\<close> are declared in
  \<^verbatim>\<open>shared.h\<close>, which is not among the sources.  The spec gives, for 64-bit floats, an
  exponent field of 11 bits (a header of \<open>ebits + 1 = 12\<close> bits), the bias 1023 and the
  precision \<open>CHAR_BIT * sizeof(Int) = 64\<close>; the 32-bit values are those of the IEEE 754
  single format.  \<^verbatim>\<open>get_min_exp\<close> is declared there too; the spec gives no value for it,
  and it is the parameter \<open>min_exp\<close> of the driver.
\<close>

datatype scalar_kind = Float32 | Float64

fun get_ebias :: "scalar_kind \<Rightarrow> cint" where
  "get_ebias Float32 = 127"
| "get_ebias Float64 = 1023"

fun get_ebits :: "scalar_kind \<Rightarrow> cint" where
  "get_ebits Float32 = 8"
| "get_ebits Float64 = 11"

fun get_precision :: "scalar_kind \<Rightarrow> cint" where
  "get_precision Float32 = 32"
| "get_precision Float64 = 64"

text \<open>
  A scalar is an IEEE 754 bit pattern, split into its three fields: sign, biased
  exponent and fraction.  \<open>frac_bits\<close> is the width of the fraction and \<open>exp_ones\<close> the
  exponent field of infinities and NaNs.
\<close>

fun frac_bits :: "scalar_kind \<Rightarrow> nat" where
  "frac_bits Float32 = 23"
| "frac_bits Float64 = 52"

fun exp_ones :: "scalar_kind \<Rightarrow> nat" where
  "exp_ones Float32 = 255"
| "exp_ones Float64 = 2047"

datatype scalar = Scalar (sign_bit: bool) (exp_field: nat) (frac_field: nat)

definition is_nan :: "scalar_kind \<Rightarrow> scalar \<Rightarrow> bool" where
  "is_nan kind x \<longleftrightarrow> exp_field x = exp_ones kind \<and> frac_field x \<noteq> 0"

definition is_finite :: "scalar_kind \<Rightarrow> scalar \<Rightarrow> bool" where
  "is_finite kind x \<longleftrightarrow> exp_field x < exp_ones kind \<and> frac_field x < 2 ^ frac_bits kind"

text \<open>
  A finite scalar is \<open>\<plusminus> significand * 2 ^ scale_exp\<close>: the significand of a normal number
  has the hidden bit, a subnormal number has the exponent of the smallest normal one.
\<close>

definition significand :: "scalar_kind \<Rightarrow> scalar \<Rightarrow> nat" where
  "significand kind x = (if exp_field x = 0 then frac_field x else 2 ^ frac_bits kind + frac_field x)"

definition scale_exp :: "scalar_kind \<Rightarrow> scalar \<Rightarrow> int" where
  "scale_exp kind x =
     int (if exp_field x = 0 then 1 else exp_field x) - sint (get_ebias kind) - int (frac_bits kind)"

definition valof :: "scalar_kind \<Rightarrow> scalar \<Rightarrow> real" where
  "valof kind x =
     (if sign_bit x then - 1 else 1) * real (significand kind x) * 2 powi scale_exp kind x"

text \<open>
  Comparison: sign and magnitude order the scalars that are not NaN, and both zeros are
  equal; every comparison with a NaN is false.
\<close>

definition fp_key :: "scalar_kind \<Rightarrow> scalar \<Rightarrow> int" where
  "fp_key kind x =
     (if sign_bit x then - 1 else 1) * (int (exp_field x) * 2 ^ frac_bits kind + int (frac_field x))"

definition fp_less :: "scalar_kind \<Rightarrow> scalar \<Rightarrow> scalar \<Rightarrow> bool" where
  "fp_less kind a b \<longleftrightarrow> \<not> is_nan kind a \<and> \<not> is_nan kind b \<and> fp_key kind a < fp_key kind b"

definition fp_zero :: scalar where
  "fp_zero = Scalar False 0 0"

definition fabs :: "scalar \<Rightarrow> scalar" where
  "fabs x = Scalar False (exp_field x) (frac_field x)"

text \<open>The device function \<^verbatim>\<open>max\<close> on floats: of a NaN and a number it returns the number.\<close>

definition fp_max :: "scalar_kind \<Rightarrow> scalar \<Rightarrow> scalar \<Rightarrow> scalar" where
  "fp_max kind a b =
     (if is_nan kind b then a else if is_nan kind a then b
      else if fp_less kind a b then b else a)"

text \<open>
  \<^verbatim>\<open>frexp(x, &e)\<close> of the C library stores the \<open>e\<close> with \<open>x = m * 2 ^ e\<close> and
  \<open>1/2 \<le> m < 1\<close>, for \<open>x\<close> finite and not zero; this is \<open>frexp_exp\<close>.  For an infinity
  the stored value is unspecified, and \<open>exponent\<close> returns \<open>None\<close>.
\<close>

fun bit_length :: "nat \<Rightarrow> nat" where
  "bit_length n = (if n = 0 then 0 else Suc (bit_length (n div 2)))"

declare bit_length.simps [simp del]

definition frexp_exp :: "scalar_kind \<Rightarrow> scalar \<Rightarrow> int" where
  "frexp_exp kind x = int (bit_length (significand kind x)) + scale_exp kind x"

definition exponent :: "scalar_kind \<Rightarrow> scalar \<Rightarrow> cint option" where
  "exponent kind x =
     (if fp_less kind fp_zero x
      then (if is_finite kind x
            then Some (MAX_int (word_of_int (frexp_exp kind x)) (1 - get_ebias kind))
            else None)
      else Some (- get_ebias kind))"

definition max_exponent :: "scalar_kind \<Rightarrow> block_size \<Rightarrow> scalar list \<Rightarrow> cint option" where
  "max_exponent kind bs p =
     exponent kind (fold (\<lambda>i max_val. fp_max kind max_val (fabs (p ! i))) [0..<BlockSize bs] fp_zero)"

text \<open>
  \<^verbatim>\<open>quantize_factor\<close> is \<^verbatim>\<open>LDEXP(1.0, get_precision<Scalar>() - 2 - exponent)\<close>, the power
  of two \<open>2 ^ n\<close> as a scalar: the infinity when \<open>2 ^ n\<close> is above the largest finite
  scalar, zero when it rounds to zero below the smallest subnormal one, and the
  exact power otherwise.

  Modelled from the spec: \<^verbatim>\<open>LDEXP\<close> is a macro of \<^verbatim>\<open>shared.h\<close>; the spec gives the factor
  as the floating-point value \<open>2 ^ (precision - 2 - emax)\<close>.
\<close>

datatype factor = Factor_zero | Factor_power int | Factor_infinity

definition quantize_factor :: "scalar_kind \<Rightarrow> cint \<Rightarrow> factor" where
  "quantize_factor kind e =
     (let n = sint (get_precision kind - 2 - e)
      in if sint (get_ebias kind) < n then Factor_infinity
         else if n \<le> - sint (get_ebias kind) - int (frac_bits kind) then Factor_zero
         else Factor_power n)"

text \<open>
  \<^verbatim>\<open>fwd_cast\<close> stores \<^verbatim>\<open>(Int)(s * fblock[i])\<close> for every \<open>i\<close>; it has no other exit.  The
  product of a finite scalar and a power of two is exact unless it falls below the
  normal range, where it is rounded to a value below 1 and truncates to 0 as the
  exact product does; so the cast of a product in the range of \<^verbatim>\<open>Int\<close> is the exact
  product truncated towards zero.

  The product is a NaN, or lies outside the range of \<^verbatim>\<open>Int\<close>, when a scalar is not
  finite, when the factor is the infinity (a block whose values are all tiny), or
  when \<open>emax\<close> is not the exponent of the block.  C++ leaves that conversion
  undefined and the value stored is the one the conversion instruction of the
  platform gives: the parameter \<open>conv\<close>, applied to the case at hand.  On the device
  the conversion saturates and turns a NaN into 0, which is \<open>saturate\<close>; the
  conversion of an x86 host gives the most negative integer in all three cases,
  which is \<open>indefinite\<close>.
\<close>

datatype undefined_cast = Cast_nan | Cast_above | Cast_below

fun saturate :: "undefined_cast \<Rightarrow> 'a::len word" where
  "saturate Cast_nan = 0"
| "saturate Cast_above = push_bit (LENGTH('a) - 1) 1 - 1"
| "saturate Cast_below = push_bit (LENGTH('a) - 1) 1"

definition indefinite :: "undefined_cast \<Rightarrow> 'a::len word" where
  "indefinite c = push_bit (LENGTH('a) - 1) 1"

definition out_of_range :: "scalar \<Rightarrow> undefined_cast" where
  "out_of_range x = (if sign_bit x then Cast_below else Cast_above)"

definition cast_scaled :: "(undefined_cast \<Rightarrow> 'a::len word) \<Rightarrow> scalar_kind \<Rightarrow> factor \<Rightarrow> scalar
    \<Rightarrow> 'a word" where
  "cast_scaled conv kind s x =
     (if is_nan kind x then conv Cast_nan
      else if \<not> is_finite kind x
      then (if s = Factor_zero then conv Cast_nan else conv (out_of_range x))
      else (case s of
              Factor_zero \<Rightarrow> 0
            | Factor_infinity \<Rightarrow>
                (if significand kind x = 0 then conv Cast_nan else conv (out_of_range x))
            | Factor_power n \<Rightarrow>
                (let q = scale_exp kind x + n;
                     mag = (if 0 \<le> q then int (significand kind x) * 2 ^ nat q
                            else int (significand kind x) div 2 ^ nat (- q));
                     v = (if sign_bit x then - mag else mag)
                 in if - (2 ^ (LENGTH('a) - 1)) \<le> v \<and> v < 2 ^ (LENGTH('a) - 1)
                    then word_of_int v else conv (out_of_range x))))"

definition fwd_cast :: "(undefined_cast \<Rightarrow> 'a::len word) \<Rightarrow> scalar_kind \<Rightarrow> block_size
    \<Rightarrow> scalar list \<Rightarrow> cint \<Rightarrow> 'a word list" where
  "fwd_cast conv kind bs fblock emax =
     (let s = quantize_factor kind emax
      in map (\<lambda>i. cast_scaled conv kind s (fblock ! i)) [0..<BlockSize bs])"

section \<open>Block drivers\<close>

text \<open>
  The floating-point driver \<^verbatim>\<open>zfp_encode_block<Scalar, BlockSize>\<close>.  The type of \<open>conv\<close>
  gives \<^verbatim>\<open>zfp_traits<Scalar>::Int\<close>.  The driver returns the writer, which holds the
  stream; the result is \<open>None\<close> only when \<^verbatim>\<open>max_exponent\<close> has none, that is when the
  largest magnitude of the block is an infinity.
\<close>

definition zfp_encode_block :: "(undefined_cast \<Rightarrow> 'a::len word) \<Rightarrow> scalar_kind \<Rightarrow> cint
    \<Rightarrow> block_size \<Rightarrow> nat list \<Rightarrow> scalar list \<Rightarrow> cint \<Rightarrow> uint \<Rightarrow> (nat \<Rightarrow> Word)
    \<Rightarrow> BlockWriter option" where
  "zfp_encode_block conv kind min_exp bs perm fblock maxbits block_idx stream =
     (let block_writer = BlockWriter_new stream maxbits block_idx
      in case max_exponent kind bs fblock of
           None \<Rightarrow> None
         | Some emax \<Rightarrow>
            (let maxprec = precision emax (get_precision kind) min_exp;
                 e = (if maxprec \<noteq> 0 then emax + get_ebias kind else 0)
             in if e \<noteq> 0
                then (let ebits = get_ebits kind + 1;
                          block_writer = fst (write_bits block_writer (ucast (2 * e + 1)) ebits);
                          iblock = fwd_cast conv kind bs fblock emax
                      in Some (encode_block bs perm block_writer (maxbits - ebits) maxprec iblock))
                else Some block_writer))"

text \<open>
  The two instances on the device: \<^verbatim>\<open>float\<close> with \<^verbatim>\<open>int\<close>, and \<^verbatim>\<open>double\<close> with
  \<^verbatim>\<open>long long\<close>.
\<close>

definition zfp_encode_block_float :: "cint \<Rightarrow> block_size \<Rightarrow> nat list
    \<Rightarrow> scalar list \<Rightarrow> cint \<Rightarrow> uint \<Rightarrow> (nat \<Rightarrow> Word) \<Rightarrow> BlockWriter option" where
  "zfp_encode_block_float = zfp_encode_block (saturate :: undefined_cast \<Rightarrow> 32 word) Float32"

definition zfp_encode_block_double :: "cint \<Rightarrow> block_size \<Rightarrow> nat list
    \<Rightarrow> scalar list \<Rightarrow> cint \<Rightarrow> uint \<Rightarrow> (nat \<Rightarrow> Word) \<Rightarrow> BlockWriter option" where
  "zfp_encode_block_double = zfp_encode_block (saturate :: undefined_cast \<Rightarrow> 64 word) Float64"

text \<open>
  The integer drivers: six specialisations with one body, for \<^verbatim>\<open>int\<close> and \<^verbatim>\<open>long long\<close>
  blocks of 4, 16 and 64 values.  \<^verbatim>\<open>get_precision<Int>()\<close> is the width of \<^verbatim>\<open>Int\<close>.
\<close>

definition zfp_encode_block_int :: "block_size \<Rightarrow> nat list \<Rightarrow> 'a::len word list \<Rightarrow> cint \<Rightarrow> uint
    \<Rightarrow> (nat \<Rightarrow> Word) \<Rightarrow> BlockWriter" where
  "zfp_encode_block_int bs perm fblock maxbits block_idx stream =
     (let block_writer = BlockWriter_new stream maxbits block_idx;
          intprec = (word_of_nat LENGTH('a) :: cint)
      in encode_block bs perm block_writer maxbits intprec fblock)"

section \<open>Stream bits and writer invariants\<close>

text \<open>
  The stream seen as one sequence of bits: bit \<open>j\<close> of the stream is bit
  \<open>j mod 64\<close> of word \<open>j div 64\<close>. A writer starts at bit \<open>base_bit\<close>
  and its next free bit is \<open>cursor\<close>.
\<close>

definition gbit :: "(nat \<Rightarrow> Word) \<Rightarrow> nat \<Rightarrow> bool" where
  "gbit mem j = bit (mem (j div 64)) (j mod 64)"

definition base_bit :: "BlockWriter \<Rightarrow> nat" where
  "base_bit bw = 64 * unat (m_word_index bw) + unat (m_start_bit bw)"

definition cursor :: "BlockWriter \<Rightarrow> nat" where
  "cursor bw = base_bit bw + unat (m_current_bit bw)"

text \<open>
  \<open>appended bw out bw'\<close>: the writer \<open>bw'\<close> is \<open>bw\<close> after the bits \<open>out\<close>
  were put at its cursor, every other bit of the stream unchanged.
\<close>

definition appended :: "BlockWriter \<Rightarrow> bool list \<Rightarrow> BlockWriter \<Rightarrow> bool" where
  "appended bw out bw' \<longleftrightarrow>
     m_word_index bw' = m_word_index bw \<and> m_start_bit bw' = m_start_bit bw \<and>
     m_maxbits bw' = m_maxbits bw \<and>
     unat (m_current_bit bw') = unat (m_current_bit bw) + length out \<and>
     (\<forall>j. gbit (m_stream bw') j =
        (if cursor bw \<le> j \<and> j < cursor bw + length out then out ! (j - cursor bw)
         else gbit (m_stream bw) j))"

text \<open>
  \<open>room B bw\<close>: the writer owns \<open>B\<close> bits from its base, none of the uint
  position computations wraps there, and the bits it has not written yet are
  zero (\<^verbatim>\<open>atomicAdd\<close> then stores the bits it is given).
\<close>

definition room :: "nat \<Rightarrow> BlockWriter \<Rightarrow> bool" where
  "room B bw \<longleftrightarrow>
     unat (m_start_bit bw) < 64 \<and> base_bit bw + B < 2 ^ 32 \<and> unat (m_current_bit bw) \<le> B \<and>
     (\<forall>j. cursor bw \<le> j \<and> j < base_bit bw + B \<longrightarrow> \<not> gbit (m_stream bw) j)"

text \<open>The two additions of \<^verbatim>\<open>write_bits\<close> at bit position \<open>P\<close>.\<close>

definition put_bits :: "(nat \<Rightarrow> Word) \<Rightarrow> nat \<Rightarrow> Word \<Rightarrow> (nat \<Rightarrow> Word)" where
  "put_bits mem P b =
     (let i = P div 64; sh = P mod 64;
          mem1 = mem(i := mem i + push_bit sh b)
      in mem1(Suc i := mem1 (Suc i) + drop_bit (64 - sh) b))"

text \<open>
  The invariant of the loops of \<^verbatim>\<open>encode_block\<close>: what is written plus
  what the budget variable \<^verbatim>\<open>bits\<close> still allows is at most \<open>B\<close>.
\<close>

definition within_budget :: "nat \<Rightarrow> BlockWriter \<Rightarrow> uint \<Rightarrow> bool" where
  "within_budget B bw bits \<longleftrightarrow> room B bw \<and> unat (m_current_bit bw) + unat bits \<le> B"

text \<open>A run that appends \<open>out\<close> and takes its length from the budget.\<close>

definition ran :: "BlockWriter \<Rightarrow> uint \<Rightarrow> bool list \<Rightarrow> BlockWriter \<Rightarrow> uint \<Rightarrow> bool" where
  "ran bw bits out bw' bits' \<longleftrightarrow> appended bw out bw' \<and> length out + unat bits' = unat bits"

text \<open>
  Two runs of a loop, the first with the smaller budget: either they are at
  the same point, or the first has used up its budget and its output starts
  the output of the second.
\<close>

definition in_step :: "bool list \<Rightarrow> uint \<Rightarrow> 'b \<Rightarrow> bool list \<Rightarrow> 'b \<Rightarrow> bool" where
  "in_step o1 bits1' s1 o2 s2 \<longleftrightarrow> (o1 = o2 \<and> s1 = s2) \<or> (bits1' = 0 \<and> prefix o1 o2)"

text \<open>The bits a writer has produced, in stream order.\<close>

definition emitted :: "BlockWriter \<Rightarrow> bool list" where
  "emitted bw = map (gbit (m_stream bw)) [base_bit bw..<cursor bw]"

definition zero_stream :: "nat \<Rightarrow> Word" where
  "zero_stream i = 0"

text \<open>
  The writer of block \<open>block_idx\<close> wrote at most \<open>maxbits\<close> bits and the
  stream differs from the initial one only in the bits
  \<open>[block_idx * maxbits, (block_idx + 1) * maxbits)\<close>.
\<close>

definition stays_in_block :: "(nat \<Rightarrow> Word) \<Rightarrow> cint \<Rightarrow> uint \<Rightarrow> BlockWriter \<Rightarrow> bool" where
  "stays_in_block stream maxbits block_idx bw \<longleftrightarrow>
     unat (m_current_bit bw) \<le> unat maxbits \<and>
     (\<forall>j. j < unat block_idx * unat maxbits \<or> unat block_idx * unat maxbits + unat maxbits \<le> j
          \<longrightarrow> gbit (m_stream bw) j = gbit stream j)"

text \<open>A block of floats that are all \<open>+0\<close> or \<open>-0\<close>.\<close>

definition zero_block :: "block_size \<Rightarrow> scalar list \<Rightarrow> bool" where
  "zero_block bs fblock \<longleftrightarrow>
     (\<forall>i < BlockSize bs. exp_field (fblock ! i) = 0 \<and> frac_field (fblock ! i) = 0)"

text \<open>A block of finite floats: no infinity and no NaN among its values.\<close>

definition finite_block :: "scalar_kind \<Rightarrow> block_size \<Rightarrow> scalar list \<Rightarrow> bool" where
  "finite_block kind bs fblock \<longleftrightarrow> (\<forall>i < BlockSize bs. is_finite kind (fblock ! i))"

text \<open>
  The longest code of the plane loop for integers of type \<open>'a\<close>: at most
  \<open>2 * BlockSize + 1\<close> bits a plane. A budget of \<open>unlimited\<close> bits is never
  used up by a float block, header included.
\<close>

definition code_bound :: "'a::len itself \<Rightarrow> block_size \<Rightarrow> nat" where
  "code_bound T bs = LENGTH('a) * (2 * BlockSize bs + 1)"

definition unlimited :: "'a::len itself \<Rightarrow> block_size \<Rightarrow> nat" where
  "unlimited T bs = 13 + LENGTH('a) * (2 * BlockSize bs + 1)"

section \<open>Concrete inputs\<close>

text \<open>An array that holds 1 at offset 0 and 0 elsewhere.\<close>

definition pad_example :: "nat \<Rightarrow> int" where
  "pad_example i = (if i = 0 then 1 else 0)"

text \<open>The writer of block 1 of an empty stream, with 64 bits a block.\<close>

definition writer_example :: BlockWriter where
  "writer_example = BlockWriter_new (\<lambda>i. 0) 64 1"

text \<open>The double 1.0 and a one-dimensional block of four of them.\<close>

definition one_double :: scalar where
  "one_double = Scalar False 1023 0"

definition ones_block :: "scalar list" where
  "ones_block = [one_double, one_double, one_double, one_double]"

text \<open>
  The double nearest to \<open>1e-300\<close>, with the bit pattern \<open>0x01A56E1FC2F8F359\<close>, and the
  block \<open>{1e-300, 0, 0, 0}\<close>, whose quantisation factor \<open>2 ^ 1058\<close> is the infinity.
\<close>

definition tiny_double :: scalar where
  "tiny_double = Scalar False 26 0x56E1FC2F8F359"

definition tiny_block :: "scalar list" where
  "tiny_block = [tiny_double, fp_zero, fp_zero, fp_zero]"

section \<open>Helper lemmas\<close>

lemma signed_halve_double:
  fixes a :: "'a::len word"
  assumes "\<not> bit a 0"
  shows "push_bit 1 (signed_drop_bit 1 a) = a"
proof (rule bit_word_eqI)
  fix n assume "n < LENGTH('a)"
  then show "bit (push_bit 1 (signed_drop_bit 1 a)) n = bit a n"
    using assms by (cases n) (auto simp: bit_signed_drop_bit_iff bit_double_iff mult.commute [of _ 2])
qed

lemma xor_cancel_right: "(a XOR b) XOR b = (a :: 'a::len word)"
  by (rule bit_word_eqI) (auto simp: bit_xor_iff)

lemma nbmask_32: "(nbmask :: 32 word) = 0xaaaaaaaa"
  unfolding nbmask_def by (simp add: word_eq_iff_unsigned [where ?'a = nat] take_bit_eq_mod)

lemma int2uint_32: "int2uint (x :: 32 word) = (x + 0xaaaaaaaa) XOR 0xaaaaaaaa"
  by (simp only: int2uint_def nbmask_32)

lemma int2uint_64: "int2uint (x :: 64 word) = (x + 0xaaaaaaaaaaaaaaaa) XOR 0xaaaaaaaaaaaaaaaa"
  by (simp add: int2uint_def nbmask_def)

lemma unat_small_mult:
  fixes s :: uint
  assumes "3 * unat s < 2 ^ 32"
  shows "unat (2 * s) = 2 * unat s" "unat (3 * s) = 3 * unat s"
  using assms by (simp_all add: unat_word_ariths)

lemma uint_le_3_cases:
  fixes n :: uint
  assumes "n \<le> 3"
  shows "n = 0 \<or> n = 1 \<or> n = 2 \<or> n = 3"
proof -
  have "unat n \<le> 3" using assms by (simp add: word_le_nat_alt)
  then have "unat n = 0 \<or> unat n = 1 \<or> unat n = 2 \<or> unat n = 3" by arith
  then show ?thesis
    by (auto simp: unat_eq_zero dest: arg_cong [where f = "word_of_nat :: nat \<Rightarrow> uint"])
qed

lemma low_bits_sub:
  fixes bits :: "'a::len word"
  shows "bits - push_bit n (drop_bit n bits) = take_bit n bits"
  using bits_ident [of n bits] by (simp add: algebra_simps)

lemma fp_max_zero: "fp_max kind fp_zero (fabs x) = fp_zero"
  if "exp_field x = 0 \<and> frac_field x = 0"
  using that by (cases kind) (simp_all add: fp_max_def fabs_def fp_zero_def is_nan_def fp_less_def)

lemma fold_max_zero:
  assumes "\<forall>i \<in> set is. exp_field (p ! i) = 0 \<and> frac_field (p ! i) = 0"
  shows "fold (\<lambda>i max_val. fp_max kind max_val (fabs (p ! i))) is fp_zero = fp_zero"
  using assms by (induction "is") (simp_all add: fp_max_zero)

lemma max_exponent_zero:
  assumes "\<forall>i < BlockSize bs. exp_field (fblock ! i) = 0 \<and> frac_field (fblock ! i) = 0"
  shows "max_exponent kind bs fblock = Some (- get_ebias kind)"
proof -
  have "fold (\<lambda>i max_val. fp_max kind max_val (fabs (fblock ! i))) [0..<BlockSize bs] fp_zero = fp_zero"
    by (rule fold_max_zero) (use assms in simp)
  then show ?thesis by (simp add: max_exponent_def exponent_def fp_less_def)
qed

lemma zero_block_unwritten:
  assumes "\<forall>i < BlockSize bs. exp_field (fblock ! i) = 0 \<and> frac_field (fblock ! i) = 0"
  shows "zfp_encode_block conv kind min_exp bs perm fblock maxbits block_idx stream
         = Some (BlockWriter_new stream maxbits block_idx)"
  by (simp add: zfp_encode_block_def max_exponent_zero [OF assms] Let_def)

subsection \<open>Writes as appended bits\<close>

text \<open>Adding a value whose bits are all at positions where the word is zero.\<close>

lemma add_bits_disjoint:
  fixes a b :: Word
  assumes "\<And>i. bit b i \<Longrightarrow> \<not> bit a i"
  shows "bit (a + b) i \<longleftrightarrow> bit a i \<or> bit b i"
  by (rule bit_disjunctive_add_iff) (use assms in blast)

text \<open>The positions the stream words take.\<close>

lemma write_pos:
  fixes sb cb wi :: uint
  assumes "unat sb < 64" "64 * unat wi + unat sb + unat cb < 2 ^ 32"
  shows "unat ((sb + cb) mod 64) = (unat sb + unat cb) mod 64"
    and "unat (wi + (sb + cb) div 64) = unat wi + (unat sb + unat cb) div 64"
proof -
  have s: "unat (sb + cb) = unat sb + unat cb"
    using assms by (simp add: unat_word_ariths)
  show "unat ((sb + cb) mod 64) = (unat sb + unat cb) mod 64"
    by (simp add: unat_mod s)
  have d: "unat ((sb + cb) div 64) = (unat sb + unat cb) div 64"
    by (simp add: unat_div s)
  show "unat (wi + (sb + cb) div 64) = unat wi + (unat sb + unat cb) div 64"
    using assms by (simp add: unat_word_ariths d)
qed

lemma gbit_at: "k < 64 \<Longrightarrow> gbit mem (64 * i + k) = bit (mem i) k"
  by (simp add: gbit_def)

lemma gbit_put_bits:
  assumes z: "\<And>j. P \<le> j \<Longrightarrow> j < P + n \<Longrightarrow> \<not> gbit mem j"
    and n: "n \<le> 64"
  shows "gbit (put_bits mem P (take_bit n v)) j =
         (if P \<le> j \<and> j < P + n then bit v (j - P) else gbit mem j)"
proof -
  define i where "i = P div 64"
  define sh where "sh = P mod 64"
  define b where "b = take_bit n v"
  define k where "k = j mod 64"
  have P: "P = 64 * i + sh" and sh: "sh < 64" by (simp_all add: i_def sh_def)
  have k: "k < 64" by (simp add: k_def)
  have j: "j = 64 * (j div 64) + k" by (simp add: k_def)
  have bb: "bit b m \<longleftrightarrow> m < n \<and> bit v m" for m
    by (simp add: b_def bit_take_bit_iff)
  have lo: "bit (push_bit sh b) m \<longleftrightarrow> sh \<le> m \<and> m < 64 \<and> m - sh < n \<and> bit v (m - sh)" for m
    by (auto simp: bit_push_bit_iff bb dest: bit_imp_le_length)
  have hi: "bit (drop_bit (64 - sh) b) m \<longleftrightarrow> m + (64 - sh) < n \<and> bit v (m + (64 - sh))" for m
    by (simp add: bit_drop_bit_eq bb add.commute)
  have zi: "\<not> bit (mem i) m" if "bit (push_bit sh b) m" for m
  proof -
    from that have m: "sh \<le> m" "m < 64" "m - sh < n" by (simp_all add: lo)
    have "\<not> gbit mem (64 * i + m)"
      by (rule z) (use m P in auto)
    then show ?thesis using gbit_at [OF m(2), of mem i] by simp
  qed
  have zs: "\<not> bit (mem (Suc i)) m" if "bit (drop_bit (64 - sh) b) m" for m
  proof -
    from that have m: "m + (64 - sh) < n" by (simp add: hi)
    with n have m64: "m < 64" by arith
    have "\<not> gbit mem (64 * Suc i + m)"
      by (rule z) (use m sh P in auto)
    then show ?thesis using gbit_at [OF m64, of mem "Suc i"] by simp
  qed
  have wi: "bit (mem i + push_bit sh b) m \<longleftrightarrow> bit (mem i) m \<or> bit (push_bit sh b) m" for m
    by (rule add_bits_disjoint) (rule zi)
  have ws: "bit (mem (Suc i) + drop_bit (64 - sh) b) m
            \<longleftrightarrow> bit (mem (Suc i)) m \<or> bit (drop_bit (64 - sh) b) m" for m
    by (rule add_bits_disjoint) (rule zs)
  have put: "put_bits mem P b =
             (mem(i := mem i + push_bit sh b))(Suc i := mem (Suc i) + drop_bit (64 - sh) b)"
    by (simp add: put_bits_def Let_def i_def sh_def)
  consider "j div 64 = i" | "j div 64 = Suc i" | "j div 64 \<noteq> i" "j div 64 \<noteq> Suc i" by blast
  then have "gbit (put_bits mem P b) j = (if P \<le> j \<and> j < P + n then bit v (j - P) else gbit mem j)"
  proof cases
    case 1
    then have g: "gbit (put_bits mem P b) j \<longleftrightarrow> bit (mem i) k \<or> bit (push_bit sh b) k"
      by (simp add: gbit_def put k_def wi)
    have jj: "j = 64 * i + k" using j 1 by simp
    show ?thesis
    proof (cases "P \<le> j \<and> j < P + n")
      case True
      then have "\<not> gbit mem j" using z by blast
      then have "\<not> bit (mem i) k" using 1 by (simp add: gbit_def k_def)
      moreover have "sh \<le> k" "k - sh < n" "j - P = k - sh" using True jj P by auto
      ultimately show ?thesis using True g k by (simp add: lo)
    next
      case False
      then have "\<not> (sh \<le> k \<and> k - sh < n)" using jj P by auto
      then have "\<not> bit (push_bit sh b) k" by (auto simp: lo)
      then show ?thesis using False g 1 by (auto simp: gbit_def k_def)
    qed
  next
    case 2
    then have g: "gbit (put_bits mem P b) j \<longleftrightarrow> bit (mem (Suc i)) k \<or> bit (drop_bit (64 - sh) b) k"
      by (simp add: gbit_def put k_def ws)
    have jj: "j = 64 * Suc i + k" using j 2 by simp
    show ?thesis
    proof (cases "P \<le> j \<and> j < P + n")
      case True
      then have "\<not> gbit mem j" using z by blast
      then have "\<not> bit (mem (Suc i)) k" using 2 by (simp add: gbit_def k_def)
      moreover have "k + (64 - sh) < n" "j - P = k + (64 - sh)" using True jj P sh by auto
      ultimately show ?thesis using True g by (simp add: hi)
    next
      case False
      then have "\<not> k + (64 - sh) < n" using jj P sh by auto
      then have "\<not> bit (drop_bit (64 - sh) b) k" by (simp add: hi)
      then show ?thesis using False g 2 by (auto simp: gbit_def k_def)
    qed
  next
    case 3
    then have g: "gbit (put_bits mem P b) j = gbit mem j"
      by (simp add: gbit_def put)
    have "\<not> (P \<le> j \<and> j < P + n)"
    proof
      assume a: "P \<le> j \<and> j < P + n"
      then have "64 * i \<le> j" "j < 64 * i + 128" using P sh n by auto
      then have "j div 64 = i \<or> j div 64 = Suc i" by arith
      with 3 show False by blast
    qed
    then show ?thesis using g by auto
  qed
  then show ?thesis by (simp only: b_def)
qed

lemma put_bits_low:
  assumes "n + P mod 64 \<le> 64"
  shows "put_bits mem P (take_bit n v) =
         mem(P div 64 := mem (P div 64) + push_bit (P mod 64) (take_bit n v))"
proof -
  have "drop_bit (64 - P mod 64) (take_bit n v) = 0"
    using assms by (simp add: drop_bit_take_bit)
  then show ?thesis by (auto simp: put_bits_def Let_def fun_eq_iff)
qed

lemma seg_end_unat:
  fixes ss n :: uint
  assumes "unat ss < 64" "unat n \<le> 64" "0 < unat n"
  shows "unat (ss + n - 1) = unat ss + unat n - 1"
proof -
  have a: "unat (ss + n) = unat ss + unat n"
    using assms by (simp add: unat_word_ariths)
  then have "ss + n \<noteq> 0" using assms(3) by (metis add_is_0 less_numeral_extra(3) unat_0)
  then show ?thesis by (simp add: unat_minus_one a)
qed

lemma write_bits_put:
  assumes sb: "unat (m_start_bit bw) < 64"
    and nw: "cursor bw + unat n < 2 ^ 32"
    and n: "unat n \<le> 64"
  shows "write_bits bw v n =
         (bw\<lparr>m_stream := put_bits (m_stream bw) (cursor bw) (take_bit (unat n) v),
             m_current_bit := m_current_bit bw + n\<rparr>, drop_bit (unat n) v)"
proof -
  define P where "P = unat (m_start_bit bw) + unat (m_current_bit bw)"
  define ss where "ss = (m_start_bit bw + m_current_bit bw) mod 64"
  define wx where "wx = m_word_index bw + (m_start_bit bw + m_current_bit bw) div 64"
  define b where "b = take_bit (unat n) v"
  define mem where "mem = m_stream bw"
  have c: "cursor bw = 64 * unat (m_word_index bw) + P"
    by (simp add: cursor_def base_bit_def P_def)
  have nw': "64 * unat (m_word_index bw) + unat (m_start_bit bw) + unat (m_current_bit bw) < 2 ^ 32"
    using nw by (simp add: cursor_def base_bit_def)
  have ss: "unat ss = cursor bw mod 64"
    unfolding ss_def write_pos(1) [OF sb nw'] c P_def by simp
  have wx: "unat wx = cursor bw div 64"
    unfolding wx_def write_pos(2) [OF sb nw'] c P_def by simp
  have ss64: "unat ss < 64" by (simp add: ss)
  have wx1: "unat (wx + 1) = Suc (cursor bw div 64)" if "64 < unat ss + unat n"
  proof -
    have "64 * (cursor bw div 64) + cursor bw mod 64 = cursor bw" by simp
    then have "64 * unat wx + 64 < 2 ^ 32" using that nw ss wx by linarith
    then have "unat wx + 1 < 2 ^ 32" by simp
    then show ?thesis using wx by (simp add: unat_word_ariths)
  qed
  have wb: "write_bits bw v n =
      (bw\<lparr>m_stream :=
            (if ss < 64 \<and> 64 \<le> ss + n - 1
             then atomicAdd (atomicAdd mem wx (push_bit (unat ss) b)) (wx + 1) (drop_bit (64 - unat ss) b)
             else atomicAdd mem wx (push_bit (unat ss) b)),
          m_current_bit := m_current_bit bw + n\<rparr>, drop_bit (unat n) v)"
    by (simp add: write_bits_def Let_def ss_def wx_def b_def mem_def low_bits_sub)
  have "(if ss < 64 \<and> 64 \<le> ss + n - 1
         then atomicAdd (atomicAdd mem wx (push_bit (unat ss) b)) (wx + 1) (drop_bit (64 - unat ss) b)
         else atomicAdd mem wx (push_bit (unat ss) b)) = put_bits mem (cursor bw) b"
  proof (cases "64 < unat ss + unat n")
    case True
    then have n0: "0 < unat n" using ss64 by arith
    have "unat (ss + n - 1) = unat ss + unat n - 1" by (rule seg_end_unat [OF ss64 n n0])
    then have "ss < 64 \<and> 64 \<le> ss + n - 1"
      using True ss64 by (simp add: word_less_nat_alt word_le_nat_alt)
    then show ?thesis
      by (simp add: atomicAdd_def put_bits_def Let_def wx wx1 [OF True] ss)
  next
    case False
    then have le: "unat n + cursor bw mod 64 \<le> 64" using ss by simp
    have low: "put_bits mem (cursor bw) b = atomicAdd mem wx (push_bit (unat ss) b)"
      unfolding b_def put_bits_low [OF le] by (simp add: atomicAdd_def wx ss)
    show ?thesis
    proof (cases "ss < 64 \<and> 64 \<le> ss + n - 1")
      case s: True
      have "unat n = 0"
      proof (rule ccontr)
        assume "unat n \<noteq> 0"
        then have n0: "0 < unat n" by simp
        have e: "unat (ss + n - 1) = unat ss + unat n - 1" by (rule seg_end_unat [OF ss64 n n0])
        from s have "64 \<le> unat (ss + n - 1)" by (simp add: word_le_nat_alt)
        with e False show False by linarith
      qed
      then have "b = 0" by (simp add: b_def)
      then show ?thesis using s low by (simp add: atomicAdd_def)
    next
      case False
      then show ?thesis using low by auto
    qed
  qed
  then show ?thesis unfolding wb by (simp add: b_def mem_def)
qed

lemma write_bit_put:
  assumes sb: "unat (m_start_bit bw) < 64"
    and nw: "cursor bw + 1 < 2 ^ 32"
    and c: "c = 0 \<or> c = 1"
  shows "write_bit bw c =
         (bw\<lparr>m_stream := put_bits (m_stream bw) (cursor bw) (take_bit 1 (ucast c)),
             m_current_bit := m_current_bit bw + 1\<rparr>, c)"
proof -
  have nw': "64 * unat (m_word_index bw) + unat (m_start_bit bw) + unat (m_current_bit bw) < 2 ^ 32"
    using nw by (simp add: cursor_def base_bit_def)
  have c': "cursor bw = 64 * unat (m_word_index bw) + (unat (m_start_bit bw) + unat (m_current_bit bw))"
    by (simp add: cursor_def base_bit_def)
  have ss: "unat ((m_start_bit bw + m_current_bit bw) mod 64) = cursor bw mod 64"
    unfolding write_pos(1) [OF sb nw'] c' by simp
  have wx: "unat (m_word_index bw + (m_start_bit bw + m_current_bit bw) div 64) = cursor bw div 64"
    unfolding write_pos(2) [OF sb nw'] c' by simp
  have t: "take_bit 1 (ucast c :: Word) = ucast c" using c by auto
  have le: "1 + cursor bw mod 64 \<le> 64"
    by (simp add: Suc_leI)
  have p: "put_bits (m_stream bw) (cursor bw) (take_bit 1 (ucast c)) =
      (m_stream bw)(cursor bw div 64 :=
         m_stream bw (cursor bw div 64) + push_bit (cursor bw mod 64) (ucast c))"
    by (subst put_bits_low [OF le]) (simp only: t)
  show ?thesis
    unfolding p by (simp add: write_bit_def Let_def atomicAdd_def ss wx)
qed

lemma appended_refl: "appended bw [] bw"
  by (auto simp: appended_def)

lemma appended_trans:
  assumes "appended a o1 b" "appended b o2 c"
  shows "appended a (o1 @ o2) c"
proof -
  have cb: "cursor b = cursor a + length o1"
    using assms(1) by (simp add: appended_def cursor_def base_bit_def)
  show ?thesis
    using assms unfolding appended_def cb
    by (auto simp: nth_append)
qed

lemma room_appended:
  assumes "room B bw" "appended bw out bw'" "unat (m_current_bit bw) + length out \<le> B"
  shows "room B bw'"
proof -
  have cb: "cursor bw' = cursor bw + length out" and bb: "base_bit bw' = base_bit bw"
    using assms(2) by (simp_all add: appended_def cursor_def base_bit_def)
  show ?thesis
    using assms unfolding room_def appended_def cb bb by auto
qed

lemma write_bits_appended:
  assumes r: "room B bw" and le: "unat (m_current_bit bw) + unat n \<le> B" and n: "unat n \<le> 64"
  shows "appended bw (map (bit v) [0..<unat n]) (fst (write_bits bw v n))"
    and "snd (write_bits bw v n) = drop_bit (unat n) v"
proof -
  have sb: "unat (m_start_bit bw) < 64" using r by (simp add: room_def)
  have nw: "cursor bw + unat n < 2 ^ 32" using r le by (simp add: room_def cursor_def)
  note w = write_bits_put [OF sb nw n, of v]
  show "snd (write_bits bw v n) = drop_bit (unat n) v" by (simp add: w)
  have z: "\<not> gbit (m_stream bw) j" if "cursor bw \<le> j" "j < cursor bw + unat n" for j
    using r le that by (simp add: room_def cursor_def)
  have cur: "unat (m_current_bit bw + n) = unat (m_current_bit bw) + unat n"
    using nw by (simp add: unat_word_ariths cursor_def)
  show "appended bw (map (bit v) [0..<unat n]) (fst (write_bits bw v n))"
    unfolding w appended_def
    by (auto simp: cur gbit_put_bits [OF z n])
qed

lemma write_bit_appended:
  assumes r: "room B bw" and le: "unat (m_current_bit bw) + 1 \<le> B" and c: "c = 0 \<or> c = 1"
  shows "appended bw [c \<noteq> 0] (fst (write_bit bw c))"
proof -
  have sb: "unat (m_start_bit bw) < 64" using r by (simp add: room_def)
  have nw: "cursor bw + 1 < 2 ^ 32" using r le by (simp add: room_def cursor_def)
  note w = write_bit_put [OF sb nw c]
  have z: "\<not> gbit (m_stream bw) j" if "cursor bw \<le> j" "j < cursor bw + 1" for j
    using r le that by (simp add: room_def cursor_def)
  have cur: "unat (m_current_bit bw + 1) = unat (m_current_bit bw) + 1"
    using nw by (simp add: unat_word_ariths cursor_def)
  have b0: "bit (ucast c :: Word) 0 \<longleftrightarrow> c \<noteq> 0" using c by auto
  show ?thesis
    unfolding w appended_def
    using gbit_put_bits [where n = 1 and v = "ucast c :: Word", OF z] by (auto simp: cur b0)
qed

lemma write_bit_snd: "snd (write_bit bw c) = c"
  by (simp add: write_bit_def Let_def)

subsection \<open>Runs of the three loops\<close>

lemma low_bit_cases: "ucast (x AND 1 :: uint64) = (0 :: uint) \<or> ucast (x AND 1 :: uint64) = (1 :: uint)"
  by (cases "even x") (simp_all add: and_one_eq mod_2_eq_odd)

lemma unat_bsize: "bsize \<le> 64 \<Longrightarrow> unat (word_of_nat bsize :: uint) = bsize"
  by (simp add: unat_of_nat)

lemma unat_bsize1: "0 < bsize \<Longrightarrow> bsize \<le> 64 \<Longrightarrow> unat (word_of_nat bsize - 1 :: uint) = bsize - 1"
proof -
  assume a: "0 < bsize" "bsize \<le> 64"
  then have "unat (word_of_nat bsize :: uint) = bsize" by (simp add: unat_bsize)
  moreover from this a have "(word_of_nat bsize :: uint) \<noteq> 0" by (metis less_numeral_extra(3) unat_0)
  ultimately show ?thesis by (simp add: unat_minus_one)
qed

lemma unat_pred: "bits \<noteq> 0 \<Longrightarrow> unat (bits - 1) = unat bits - 1 \<and> 0 < unat bits" for bits :: uint
  by (simp add: unat_minus_one unat_gt_0)

lemma unat_succ: "unat n < 64 \<Longrightarrow> unat (n + 1) = unat n + 1" for n :: uint
  by (simp add: unat_word_ariths)

lemma encode_unary_stop:
  assumes "\<not> (n < word_of_nat bsize - 1 \<and> bits \<noteq> 0)"
  shows "encode_unary bsize (bw, bits, x, n) = (bw, bits, x, n)"
  using assms by (subst encode_unary.simps) auto

lemma encode_unary_step:
  assumes "n < word_of_nat bsize - 1 \<and> bits \<noteq> 0"
  shows "encode_unary bsize (bw, bits, x, n) =
     (if ucast (x AND 1) = (0 :: uint)
      then encode_unary bsize (fst (write_bit bw (ucast (x AND 1))), bits - 1, drop_bit 1 x, n + 1)
      else (fst (write_bit bw (ucast (x AND 1))), bits - 1, x, n))"
  using assms by (subst encode_unary.simps) (simp add: case_prod_beta write_bit_snd)

lemma encode_unary_run:
  assumes "encode_unary bsize (bw, bits, x, n) = (bw', bits', x', n')"
    and "room B bw" and "unat (m_current_bit bw) + unat bits \<le> B"
    and "0 < bsize" and "bsize \<le> 64"
  shows "\<exists>out. appended bw out bw' \<and> length out + unat bits' = unat bits
           \<and> unat n \<le> unat n' \<and> length out \<le> unat n' - unat n + 1
           \<and> (unat n < bsize \<longrightarrow> unat n' < bsize)"
  using assms
proof (induction bsize "(bw, bits, x, n)" arbitrary: bw bits x n rule: encode_unary.induct)
  case (1 bsize bw bits x n)
  note bs = unat_bsize1 [OF "1.prems"(4,5)]
  show ?case
  proof (cases "n < word_of_nat bsize - 1 \<and> bits \<noteq> 0")
    case False
    then have "(bw', bits', x', n') = (bw, bits, x, n)"
      using "1.prems"(1) by (simp add: encode_unary_stop [OF False])
    then show ?thesis using appended_refl [of bw] by auto
  next
    case True
    define c :: uint where "c = ucast (x AND 1)"
    define bw1 where "bw1 = fst (write_bit bw c)"
    have c: "c = 0 \<or> c = 1" unfolding c_def by (rule low_bit_cases)
    have nb: "unat n < bsize - 1" using True bs by (simp add: word_less_nat_alt)
    have bits: "unat (bits - 1) = unat bits - 1" "0 < unat bits" using True by (simp_all add: unat_pred)
    have le1: "unat (m_current_bit bw) + 1 \<le> B" using "1.prems"(3) bits by simp
    have a1: "appended bw [c \<noteq> 0] bw1"
      unfolding bw1_def by (rule write_bit_appended [OF "1.prems"(2) le1 c])
    have r1: "room B bw1"
      by (rule room_appended [OF "1.prems"(2) a1]) (use le1 in simp)
    have cur1: "unat (m_current_bit bw1) = unat (m_current_bit bw) + 1"
      using a1 by (simp add: appended_def)
    show ?thesis
    proof (cases "c = 0")
      case c0: True
      have wb: "(bw1, c) = write_bit bw (ucast (x AND 1))"
        by (simp add: bw1_def c_def prod_eq_iff write_bit_snd)
      have rec: "encode_unary bsize (bw1, bits - 1, drop_bit 1 x, n + 1) = (bw', bits', x', n')"
        using "1.prems"(1) c0 by (simp add: encode_unary_step [OF True] c_def bw1_def)
      have le2: "unat (m_current_bit bw1) + unat (bits - 1) \<le> B"
        using "1.prems"(3) bits cur1 by simp
      from "1.hyps" [OF True wb c0 rec r1 le2 "1.prems"(4,5)]
      obtain out where o: "appended bw1 out bw'" "length out + unat bits' = unat (bits - 1)"
        "unat (n + 1) \<le> unat n'" "length out \<le> unat n' - unat (n + 1) + 1"
        "unat (n + 1) < bsize \<longrightarrow> unat n' < bsize" by blast
      have n1: "unat (n + 1) = unat n + 1" using nb "1.prems"(5) by (simp add: unat_succ)
      have "appended bw ([c \<noteq> 0] @ out) bw'" by (rule appended_trans [OF a1 o(1)])
      moreover have "length ([c \<noteq> 0] @ out) + unat bits' = unat bits" using o(2) bits by simp
      moreover have "unat n \<le> unat n'" using o(3) n1 by simp
      moreover have "length ([c \<noteq> 0] @ out) \<le> unat n' - unat n + 1" using o(3,4) n1 by simp
      moreover have "unat n < bsize \<longrightarrow> unat n' < bsize" using o(5) n1 nb by simp
      ultimately show ?thesis by blast
    next
      case c1: False
      have "(bw', bits', x', n') = (bw1, bits - 1, x, n)"
        using "1.prems"(1) c1 by (auto simp: encode_unary_step [OF True] c_def bw1_def)
      then show ?thesis using a1 bits by auto
    qed
  qed
qed

lemma encode_group_stop:
  assumes "\<not> (n < word_of_nat bsize \<and> bits \<noteq> 0)"
  shows "encode_group bsize (bw, bits, x, n) = (bw, bits, x, n)"
  using assms by (subst encode_group.simps) auto

lemma encode_group_step:
  assumes "n < word_of_nat bsize \<and> bits \<noteq> 0"
  shows "encode_group bsize (bw, bits, x, n) =
     (if x \<noteq> 0
      then (case encode_unary bsize (fst (write_bit bw 1), bits - 1, x, n) of
              (bw2, bits2, x2, n2) \<Rightarrow> encode_group bsize (bw2, bits2, drop_bit 1 x2, n2 + 1))
      else (fst (write_bit bw 0), bits - 1, x, n))"
  using assms by (subst encode_group.simps) (simp add: case_prod_beta write_bit_snd)

lemma encode_group_run:
  assumes "encode_group bsize (bw, bits, x, n) = (bw', bits', x', n')"
    and "room B bw" and "unat (m_current_bit bw) + unat bits \<le> B"
    and "0 < bsize" and "bsize \<le> 64" and "unat n \<le> bsize"
  shows "\<exists>out. appended bw out bw' \<and> length out + unat bits' = unat bits
           \<and> unat n \<le> unat n' \<and> unat n' \<le> bsize
           \<and> length out \<le> 2 * (unat n' - unat n) + 1"
  using assms
proof (induction "unat bits" arbitrary: bw bits x n rule: less_induct)
  case less
  note bs = unat_bsize [OF less.prems(5)]
  show ?case
  proof (cases "n < word_of_nat bsize \<and> bits \<noteq> 0")
    case False
    then have "(bw', bits', x', n') = (bw, bits, x, n)"
      using less.prems(1) by (simp add: encode_group_stop [OF False])
    then show ?thesis using appended_refl [of bw] less.prems(6) by auto
  next
    case True
    define c :: uint where "c = (if x \<noteq> 0 then 1 else 0)"
    define bw1 where "bw1 = fst (write_bit bw c)"
    have c: "c = 0 \<or> c = 1" unfolding c_def by simp
    have nb: "unat n < bsize" using True bs by (simp add: word_less_nat_alt)
    have bits: "unat (bits - 1) = unat bits - 1" "0 < unat bits" using True by (simp_all add: unat_pred)
    have le1: "unat (m_current_bit bw) + 1 \<le> B" using less.prems(3) bits by simp
    have a1: "appended bw [c \<noteq> 0] bw1"
      unfolding bw1_def by (rule write_bit_appended [OF less.prems(2) le1 c])
    have r1: "room B bw1"
      by (rule room_appended [OF less.prems(2) a1]) (use le1 in simp)
    have cur1: "unat (m_current_bit bw1) = unat (m_current_bit bw) + 1"
      using a1 by (simp add: appended_def)
    have le2: "unat (m_current_bit bw1) + unat (bits - 1) \<le> B"
      using less.prems(3) bits cur1 by simp
    show ?thesis
    proof (cases "x = 0")
      case x0: True
      have "(bw', bits', x', n') = (bw1, bits - 1, x, n)"
        using less.prems(1) x0 by (auto simp: encode_group_step [OF True] c_def bw1_def)
      then show ?thesis using a1 bits less.prems(6) by auto
    next
      case x1: False
      obtain bw2 bits2 x2 n2 where u: "encode_unary bsize (bw1, bits - 1, x, n) = (bw2, bits2, x2, n2)"
        by (metis prod_cases4)
      have b1: "bw1 = fst (write_bit bw 1)" using x1 by (simp add: bw1_def c_def)
      have rec: "encode_group bsize (bw2, bits2, drop_bit 1 x2, n2 + 1) = (bw', bits', x', n')"
        using less.prems(1) x1 u by (simp add: encode_group_step [OF True] b1 [symmetric])
      from encode_unary_run [OF u r1 le2 less.prems(4,5)]
      obtain o1 where o1: "appended bw1 o1 bw2" "length o1 + unat bits2 = unat (bits - 1)"
        "unat n \<le> unat n2" "length o1 \<le> unat n2 - unat n + 1" "unat n2 < bsize"
        using nb by blast
      have r2: "room B bw2"
        by (rule room_appended [OF r1 o1(1)]) (use le2 o1(2) in simp)
      have cur2: "unat (m_current_bit bw2) = unat (m_current_bit bw1) + length o1"
        using o1(1) by (simp add: appended_def)
      have le3: "unat (m_current_bit bw2) + unat bits2 \<le> B"
        using le2 o1(2) cur2 by simp
      have n21: "unat (n2 + 1) = unat n2 + 1" using o1(5) less.prems(5) by (simp add: unat_succ)
      have lt: "unat bits2 < unat bits" using o1(2) bits by simp
      have nle: "unat (n2 + 1) \<le> bsize" using n21 o1(5) by simp
      from less.hyps [OF lt rec r2 le3 less.prems(4,5) nle]
      obtain o2 where o2: "appended bw2 o2 bw'" "length o2 + unat bits' = unat bits2"
        "unat (n2 + 1) \<le> unat n'" "unat n' \<le> bsize"
        "length o2 \<le> 2 * (unat n' - unat (n2 + 1)) + 1" by blast
      have "appended bw ([c \<noteq> 0] @ o1 @ o2) bw'"
        by (rule appended_trans [OF a1 appended_trans [OF o1(1) o2(1)]])
      moreover have "length ([c \<noteq> 0] @ o1 @ o2) + unat bits' = unat bits"
        using o1(2) o2(2) bits by simp
      moreover have "unat n \<le> unat n'" using o1(3) o2(3) n21 by simp
      moreover have "length ([c \<noteq> 0] @ o1 @ o2) \<le> 2 * (unat n' - unat n) + 1"
        using o1(3,4) o2(3,5) n21 by simp
      ultimately show ?thesis using o2(4) by blast
    qed
  qed
qed

lemma encode_planes_stop:
  assumes "\<not> (bits \<noteq> 0 \<and> kmin < k)"
  shows "encode_planes bsize kmin ublock (bw, bits, k, n) = (bw, bits, n)"
  using assms by (subst encode_planes.simps) auto

lemma encode_planes_step:
  assumes "bits \<noteq> 0 \<and> kmin < k"
  shows "encode_planes bsize kmin ublock (bw, bits, k, n) =
     (case encode_group bsize
             (fst (write_bits bw (bit_plane ublock (k - 1) bsize) (min n bits)), bits - min n bits,
              snd (write_bits bw (bit_plane ublock (k - 1) bsize) (min n bits)), n) of
        (bw2, bits2, x2, n2) \<Rightarrow> encode_planes bsize kmin ublock (bw2, bits2, k - 1, n2))"
  using assms by (subst encode_planes.simps) (simp add: case_prod_beta Let_def)

lemma unat_min: "unat (min a b) = min (unat a) (unat b)" for a b :: uint
  by (simp add: min_def word_le_nat_alt)

lemma unat_sub_min: "unat (bits - min n bits) = unat bits - min (unat n) (unat bits)" for n bits :: uint
  by (simp add: unat_sub unat_min min_def word_le_nat_alt)

lemma encode_planes_run:
  assumes "encode_planes bsize kmin ublock (bw, bits, k, n) = (bw', bits', n')"
    and "room B bw" and "unat (m_current_bit bw) + unat bits \<le> B"
    and "0 < bsize" and "bsize \<le> 64" and "unat n \<le> bsize"
  shows "\<exists>out. appended bw out bw' \<and> length out + unat bits' = unat bits
           \<and> unat n' \<le> bsize
           \<and> length out \<le> (unat k - unat kmin) * (2 * bsize + 1)"
  using assms
proof (induction "unat k" arbitrary: bw bits k n rule: less_induct)
  case less
  show ?case
  proof (cases "bits \<noteq> 0 \<and> kmin < k")
    case False
    then have "(bw', bits', n') = (bw, bits, n)"
      using less.prems(1) by (simp add: encode_planes_stop [OF False])
    then show ?thesis using appended_refl [of bw] less.prems(6) by auto
  next
    case True
    define x where "x = bit_plane ublock (k - 1) bsize"
    define m where "m = min n bits"
    define bw1 where "bw1 = fst (write_bits bw x m)"
    define x1 where "x1 = snd (write_bits bw x m)"
    have k: "unat kmin < unat k" using True by (simp add: word_less_nat_alt)
    then have "k \<noteq> 0" by auto
    then have k1: "unat (k - 1) = unat k - 1" by (simp add: unat_minus_one)
    have m: "unat m = min (unat n) (unat bits)" by (simp add: m_def unat_min)
    have m64: "unat m \<le> 64" using m less.prems(5,6) by simp
    have bm: "unat (bits - m) = unat bits - unat m" unfolding m_def by (simp add: unat_sub_min unat_min)
    have lem: "unat (m_current_bit bw) + unat m \<le> B" using less.prems(3) m by simp
    have a1: "appended bw (map (bit x) [0..<unat m]) bw1"
      unfolding bw1_def by (rule write_bits_appended(1) [OF less.prems(2) lem m64])
    have r1: "room B bw1"
      by (rule room_appended [OF less.prems(2) a1]) (use lem in simp)
    have cur1: "unat (m_current_bit bw1) = unat (m_current_bit bw) + unat m"
      using a1 by (simp add: appended_def)
    have le1: "unat (m_current_bit bw1) + unat (bits - m) \<le> B"
      using less.prems(3) cur1 bm m by simp
    obtain bw2 bits2 x2 n2 where g: "encode_group bsize (bw1, bits - m, x1, n) = (bw2, bits2, x2, n2)"
      by (metis prod_cases4)
    have rec: "encode_planes bsize kmin ublock (bw2, bits2, k - 1, n2) = (bw', bits', n')"
      using less.prems(1) g
      by (simp add: encode_planes_step [OF True] x_def [symmetric] m_def [symmetric]
          bw1_def [symmetric] x1_def [symmetric])
    from encode_group_run [OF g r1 le1 less.prems(4,5,6)]
    obtain og where og: "appended bw1 og bw2" "length og + unat bits2 = unat (bits - m)"
      "unat n \<le> unat n2" "unat n2 \<le> bsize" "length og \<le> 2 * (unat n2 - unat n) + 1"
      by blast
    have r2: "room B bw2"
      by (rule room_appended [OF r1 og(1)]) (use le1 og(2) in simp)
    have cur2: "unat (m_current_bit bw2) = unat (m_current_bit bw1) + length og"
      using og(1) by (simp add: appended_def)
    have le2: "unat (m_current_bit bw2) + unat bits2 \<le> B"
      using le1 og(2) cur2 by simp
    have lt: "unat (k - 1) < unat k" using k k1 by simp
    from less.hyps [OF lt rec r2 le2 less.prems(4,5) og(4)]
    obtain orec where orec: "appended bw2 orec bw'" "length orec + unat bits' = unat bits2"
      "unat n' \<le> bsize" "length orec \<le> (unat (k - 1) - unat kmin) * (2 * bsize + 1)"
      by blast
    define out where "out = map (bit x) [0..<unat m] @ og @ orec"
    have "appended bw out bw'"
      unfolding out_def by (rule appended_trans [OF a1 appended_trans [OF og(1) orec(1)]])
    moreover have "length out + unat bits' = unat bits"
      using og(2) orec(2) bm m by (simp add: out_def)
    moreover have "length out \<le> (unat k - unat kmin) * (2 * bsize + 1)"
    proof -
      have "unat m + length og \<le> 2 * bsize + 1" using m og(3,4,5) by simp
      moreover have "(unat k - unat kmin) * (2 * bsize + 1)
                     = (2 * bsize + 1) + (unat (k - 1) - unat kmin) * (2 * bsize + 1)"
      proof -
        have "unat k - unat kmin = Suc (unat (k - 1) - unat kmin)" using k k1 by simp
        then show ?thesis by simp
      qed
      ultimately show ?thesis using orec(4) by (simp add: out_def)
    qed
    ultimately show ?thesis using orec(3) by blast
  qed
qed

subsection \<open>Budget accounting\<close>

lemma ran_refl: "ran bw bits [] bw bits"
  by (simp add: ran_def appended_refl)

lemma ran_trans: "ran a b o1 a' b' \<Longrightarrow> ran a' b' o2 a'' b'' \<Longrightarrow> ran a b (o1 @ o2) a'' b''"
  by (auto simp: ran_def intro: appended_trans)

lemma within_budget_ran:
  assumes "within_budget B bw bits" "ran bw bits out bw' bits'"
  shows "within_budget B bw' bits'"
proof -
  have cur: "unat (m_current_bit bw') = unat (m_current_bit bw) + length out"
    using assms(2) by (simp add: ran_def appended_def)
  have "room B bw'"
    by (rule room_appended [of B bw out]) (use assms in \<open>auto simp: within_budget_def ran_def\<close>)
  then show ?thesis using assms cur by (auto simp: within_budget_def ran_def)
qed

lemma write_bit_ran:
  assumes "within_budget B bw bits" "bits \<noteq> 0" "c = 0 \<or> c = 1"
  shows "ran bw bits [c \<noteq> 0] (fst (write_bit bw c)) (bits - 1)"
proof -
  have bits: "unat (bits - 1) = unat bits - 1" "0 < unat bits" using assms(2) by (simp_all add: unat_pred)
  have "appended bw [c \<noteq> 0] (fst (write_bit bw c))"
    by (rule write_bit_appended [of B]) (use assms bits in \<open>auto simp: within_budget_def\<close>)
  then show ?thesis using bits by (simp add: ran_def)
qed

lemma write_bits_ran:
  assumes "within_budget B bw bits" "unat n \<le> 64"
  shows "ran bw bits (map (bit v) [0..<min (unat n) (unat bits)])
           (fst (write_bits bw v (min n bits))) (bits - min n bits)"
proof -
  have m: "unat (min n bits) = min (unat n) (unat bits)" by (rule unat_min)
  have "appended bw (map (bit v) [0..<unat (min n bits)]) (fst (write_bits bw v (min n bits)))"
    by (rule write_bits_appended(1) [of B]) (use assms m in \<open>auto simp: within_budget_def\<close>)
  then show ?thesis by (simp add: ran_def m unat_sub_min)
qed

lemma encode_unary_ran:
  assumes "encode_unary bsize (bw, bits, x, n) = (bw', bits', x', n')"
    and "within_budget B bw bits" and "0 < bsize" and "bsize \<le> 64"
  shows "\<exists>out. ran bw bits out bw' bits'
           \<and> unat n \<le> unat n' \<and> length out \<le> unat n' - unat n + 1
           \<and> (unat n < bsize \<longrightarrow> unat n' < bsize)"
  using encode_unary_run [OF assms(1) _ _ assms(3,4), of B] assms(2)
  by (simp add: within_budget_def ran_def)

lemma encode_group_ran:
  assumes "encode_group bsize (bw, bits, x, n) = (bw', bits', x', n')"
    and "within_budget B bw bits" and "0 < bsize" and "bsize \<le> 64" and "unat n \<le> bsize"
  shows "\<exists>out. ran bw bits out bw' bits'
           \<and> unat n \<le> unat n' \<and> unat n' \<le> bsize
           \<and> length out \<le> 2 * (unat n' - unat n) + 1"
  using encode_group_run [OF assms(1) _ _ assms(3,4,5), of B] assms(2)
  by (simp add: within_budget_def ran_def)

lemma encode_planes_ran:
  assumes "encode_planes bsize kmin ublock (bw, bits, k, n) = (bw', bits', n')"
    and "within_budget B bw bits" and "0 < bsize" and "bsize \<le> 64" and "unat n \<le> bsize"
  shows "\<exists>out. ran bw bits out bw' bits' \<and> unat n' \<le> bsize
           \<and> length out \<le> (unat k - unat kmin) * (2 * bsize + 1)"
  using encode_planes_run [OF assms(1) _ _ assms(3,4,5), of B] assms(2)
  by (simp add: within_budget_def ran_def)

subsection \<open>Two budgets side by side\<close>

lemma in_step_cons:
  "in_step o1 b s1 o2 s2 \<Longrightarrow> in_step (p @ o1) b s1 (p @ o2) s2"
  by (auto simp: in_step_def)

lemma encode_unary_rel:
  assumes "encode_unary bsize (bw1, bits1, x, n) = (bw1', bits1', x1', n1')"
    and "encode_unary bsize (bw2, bits2, x, n) = (bw2', bits2', x2', n2')"
    and "within_budget B1 bw1 bits1" and "within_budget B2 bw2 bits2"
    and "0 < bsize" and "bsize \<le> 64" and "unat bits1 \<le> unat bits2"
  shows "\<exists>o1 o2. ran bw1 bits1 o1 bw1' bits1' \<and> ran bw2 bits2 o2 bw2' bits2'
           \<and> in_step o1 bits1' (x1', n1') o2 (x2', n2')"
  using assms
proof (induction "unat bits2" arbitrary: bw1 bits1 bw2 bits2 x n rule: less_induct)
  case less
  from encode_unary_ran [OF less.prems(2,4,5,6)]
  obtain o2 where run2: "ran bw2 bits2 o2 bw2' bits2'" by blast
  show ?case
  proof (cases "n < word_of_nat bsize - 1 \<and> bits1 \<noteq> 0")
    case False
    then have s1: "(bw1', bits1', x1', n1') = (bw1, bits1, x, n)"
      using less.prems(1) by (simp add: encode_unary_stop [OF False])
    show ?thesis
    proof (cases "n < word_of_nat bsize - 1 \<and> bits2 \<noteq> 0")
      case f2: False
      then have "(bw2', bits2', x2', n2') = (bw2, bits2, x, n)"
        using less.prems(2) by (simp add: encode_unary_stop [OF f2])
      with s1 show ?thesis
        using ran_refl [of bw1 bits1] ran_refl [of bw2 bits2] by (auto simp: in_step_def)
    next
      case True
      with False have "bits1 = 0" by simp
      with s1 run2 show ?thesis
        using ran_refl [of bw1 bits1]
        by (intro exI [of _ "[]"] exI [of _ o2]) (auto simp: in_step_def)
    qed
  next
    case True
    then have b1: "bits1 \<noteq> 0" by simp
    then have "0 < unat bits1" by (simp add: unat_gt_0)
    with less.prems(7) have "0 < unat bits2" by simp
    then have b2: "bits2 \<noteq> 0" by auto
    with True have t2: "n < word_of_nat bsize - 1 \<and> bits2 \<noteq> 0" by simp
    define c :: uint where "c = ucast (x AND 1)"
    have c: "c = 0 \<or> c = 1" unfolding c_def by (rule low_bit_cases)
    define bwa where "bwa = fst (write_bit bw1 c)"
    define bwb where "bwb = fst (write_bit bw2 c)"
    have ra: "ran bw1 bits1 [c \<noteq> 0] bwa (bits1 - 1)"
      unfolding bwa_def by (rule write_bit_ran [OF less.prems(3) b1 c])
    have rb: "ran bw2 bits2 [c \<noteq> 0] bwb (bits2 - 1)"
      unfolding bwb_def by (rule write_bit_ran [OF less.prems(4) b2 c])
    show ?thesis
    proof (cases "c = 0")
      case c0: True
      have e1: "encode_unary bsize (bwa, bits1 - 1, drop_bit 1 x, n + 1) = (bw1', bits1', x1', n1')"
        using less.prems(1) c0 by (simp add: encode_unary_step [OF True] c_def bwa_def)
      have e2: "encode_unary bsize (bwb, bits2 - 1, drop_bit 1 x, n + 1) = (bw2', bits2', x2', n2')"
        using less.prems(2) c0 by (simp add: encode_unary_step [OF t2] c_def bwb_def)
      have lt: "unat (bits2 - 1) < unat bits2" using b2 by (simp add: unat_pred)
      have le: "unat (bits1 - 1) \<le> unat (bits2 - 1)"
        using b1 b2 less.prems(7) by (simp add: unat_pred)
      from less.hyps [OF lt e1 e2 within_budget_ran [OF less.prems(3) ra]
          within_budget_ran [OF less.prems(4) rb] less.prems(5,6) le]
      obtain p1 p2 where p: "ran bwa (bits1 - 1) p1 bw1' bits1'" "ran bwb (bits2 - 1) p2 bw2' bits2'"
        "in_step p1 bits1' (x1', n1') p2 (x2', n2')" by blast
      show ?thesis
        using ran_trans [OF ra p(1)] ran_trans [OF rb p(2)] in_step_cons [OF p(3), of "[c \<noteq> 0]"]
        by blast
    next
      case c1: False
      have "(bw1', bits1', x1', n1') = (bwa, bits1 - 1, x, n)"
        using less.prems(1) c1 by (auto simp: encode_unary_step [OF True] c_def bwa_def)
      moreover have "(bw2', bits2', x2', n2') = (bwb, bits2 - 1, x, n)"
        using less.prems(2) c1 by (auto simp: encode_unary_step [OF t2] c_def bwb_def)
      ultimately show ?thesis using ra rb by (auto simp: in_step_def)
    qed
  qed
qed

lemma in_step_exhausted: "prefix o1 o2 \<Longrightarrow> in_step o1 0 s1 o2 s2"
  by (simp add: in_step_def)

lemma encode_group_rel:
  assumes "encode_group bsize (bw1, bits1, x, n) = (bw1', bits1', x1', n1')"
    and "encode_group bsize (bw2, bits2, x, n) = (bw2', bits2', x2', n2')"
    and "within_budget B1 bw1 bits1" and "within_budget B2 bw2 bits2"
    and "0 < bsize" and "bsize \<le> 64" and "unat n \<le> bsize" and "unat bits1 \<le> unat bits2"
  shows "\<exists>o1 o2. ran bw1 bits1 o1 bw1' bits1' \<and> ran bw2 bits2 o2 bw2' bits2'
           \<and> in_step o1 bits1' (x1', n1') o2 (x2', n2')"
  using assms
proof (induction "unat bits2" arbitrary: bw1 bits1 bw2 bits2 x n rule: less_induct)
  case less
  note bs = unat_bsize [OF less.prems(6)]
  from encode_group_ran [OF less.prems(2,4,5,6,7)]
  obtain o2 where run2: "ran bw2 bits2 o2 bw2' bits2'" by blast
  show ?case
  proof (cases "n < word_of_nat bsize \<and> bits1 \<noteq> 0")
    case False
    then have s1: "(bw1', bits1', x1', n1') = (bw1, bits1, x, n)"
      using less.prems(1) by (simp add: encode_group_stop [OF False])
    show ?thesis
    proof (cases "n < word_of_nat bsize \<and> bits2 \<noteq> 0")
      case f2: False
      then have "(bw2', bits2', x2', n2') = (bw2, bits2, x, n)"
        using less.prems(2) by (simp add: encode_group_stop [OF f2])
      with s1 show ?thesis
        using ran_refl [of bw1 bits1] ran_refl [of bw2 bits2] by (auto simp: in_step_def)
    next
      case True
      with False have "bits1 = 0" by simp
      with s1 run2 show ?thesis
        using ran_refl [of bw1 bits1]
        by (intro exI [of _ "[]"] exI [of _ o2]) (auto simp: in_step_def)
    qed
  next
    case True
    then have b1: "bits1 \<noteq> 0" by simp
    then have "0 < unat bits1" by (simp add: unat_gt_0)
    with less.prems(8) have "0 < unat bits2" by simp
    then have b2: "bits2 \<noteq> 0" by auto
    with True have t2: "n < word_of_nat bsize \<and> bits2 \<noteq> 0" by simp
    have nb: "unat n < bsize" using True bs by (simp add: word_less_nat_alt)
    define c :: uint where "c = (if x \<noteq> 0 then 1 else 0)"
    have c: "c = 0 \<or> c = 1" unfolding c_def by simp
    define bwa where "bwa = fst (write_bit bw1 c)"
    define bwb where "bwb = fst (write_bit bw2 c)"
    have ra: "ran bw1 bits1 [c \<noteq> 0] bwa (bits1 - 1)"
      unfolding bwa_def by (rule write_bit_ran [OF less.prems(3) b1 c])
    have rb: "ran bw2 bits2 [c \<noteq> 0] bwb (bits2 - 1)"
      unfolding bwb_def by (rule write_bit_ran [OF less.prems(4) b2 c])
    note wa = within_budget_ran [OF less.prems(3) ra]
    note wb = within_budget_ran [OF less.prems(4) rb]
    have le: "unat (bits1 - 1) \<le> unat (bits2 - 1)"
      using b1 b2 less.prems(8) by (simp add: unat_pred)
    show ?thesis
    proof (cases "x = 0")
      case x0: True
      have "(bw1', bits1', x1', n1') = (bwa, bits1 - 1, x, n)"
        using less.prems(1) x0 by (auto simp: encode_group_step [OF True] c_def bwa_def)
      moreover have "(bw2', bits2', x2', n2') = (bwb, bits2 - 1, x, n)"
        using less.prems(2) x0 by (auto simp: encode_group_step [OF t2] c_def bwb_def)
      ultimately show ?thesis using ra rb by (auto simp: in_step_def)
    next
      case x1: False
      have ca: "bwa = fst (write_bit bw1 1)" and cb: "bwb = fst (write_bit bw2 1)"
        using x1 by (simp_all add: bwa_def bwb_def c_def)
      obtain bw1u bits1u x1u n1u
        where u1: "encode_unary bsize (bwa, bits1 - 1, x, n) = (bw1u, bits1u, x1u, n1u)"
        by (metis prod_cases4)
      obtain bw2u bits2u x2u n2u
        where u2: "encode_unary bsize (bwb, bits2 - 1, x, n) = (bw2u, bits2u, x2u, n2u)"
        by (metis prod_cases4)
      have e1: "encode_group bsize (bw1u, bits1u, drop_bit 1 x1u, n1u + 1) = (bw1', bits1', x1', n1')"
        using less.prems(1) x1 u1 by (simp add: encode_group_step [OF True] ca [symmetric])
      have e2: "encode_group bsize (bw2u, bits2u, drop_bit 1 x2u, n2u + 1) = (bw2', bits2', x2', n2')"
        using less.prems(2) x1 u2 by (simp add: encode_group_step [OF t2] cb [symmetric])
      from encode_unary_rel [OF u1 u2 wa wb less.prems(5,6) le]
      obtain p1 p2 where p: "ran bwa (bits1 - 1) p1 bw1u bits1u" "ran bwb (bits2 - 1) p2 bw2u bits2u"
        "in_step p1 bits1u (x1u, n1u) p2 (x2u, n2u)" by blast
      note w1u = within_budget_ran [OF wa p(1)]
      note w2u = within_budget_ran [OF wb p(2)]
      from encode_unary_ran [OF u2 wb less.prems(5,6)] nb
      have n2u: "unat n2u < bsize" by blast
      then have n2u1: "unat (n2u + 1) \<le> bsize"
        using less.prems(6) by (simp add: unat_succ)
      have lt: "unat bits2u < unat bits2"
        using p(2) unat_pred [OF b2] by (auto simp: ran_def)
      from encode_group_ran [OF e2 w2u less.prems(5,6) n2u1]
      obtain q2' where q2': "ran bw2u bits2u q2' bw2' bits2'" by blast
      show ?thesis
      proof (cases "p1 = p2 \<and> (x1u, n1u) = (x2u, n2u)")
        case True
        then have eq: "p1 = p2" "x1u = x2u" "n1u = n2u" by simp_all
        have le2: "unat bits1u \<le> unat bits2u"
          using p(1,2) le eq(1) by (simp add: ran_def)
        have e1': "encode_group bsize (bw1u, bits1u, drop_bit 1 x2u, n2u + 1) = (bw1', bits1', x1', n1')"
          using e1 eq by simp
        from less.hyps [OF lt e1' e2 w1u w2u less.prems(5,6) n2u1 le2]
        obtain q1 q2 where q: "ran bw1u bits1u q1 bw1' bits1'" "ran bw2u bits2u q2 bw2' bits2'"
          "in_step q1 bits1' (x1', n1') q2 (x2', n2')" by blast
        have "in_step ([c \<noteq> 0] @ p1 @ q1) bits1' (x1', n1') ([c \<noteq> 0] @ p2 @ q2) (x2', n2')"
          using in_step_cons [OF q(3), of "[c \<noteq> 0] @ p1"] eq(1) by simp
        then show ?thesis
          using ran_trans [OF ra ran_trans [OF p(1) q(1)]] ran_trans [OF rb ran_trans [OF p(2) q(2)]]
          by blast
      next
        case False
        with p(3) have ex: "bits1u = 0" "prefix p1 p2" by (auto simp: in_step_def)
        have "(bw1', bits1', x1', n1') = (bw1u, bits1u, drop_bit 1 x1u, n1u + 1)"
          using e1 ex(1) by (simp add: encode_group_stop)
        then have r1: "ran bw1 bits1 ([c \<noteq> 0] @ p1) bw1' bits1'" and z: "bits1' = 0"
          using ran_trans [OF ra p(1)] ex(1) by simp_all
        have "prefix ([c \<noteq> 0] @ p1) ([c \<noteq> 0] @ p2 @ q2')"
          using ex(2) by (simp add: prefix_prefix)
        then have "in_step ([c \<noteq> 0] @ p1) bits1' (x1', n1') ([c \<noteq> 0] @ p2 @ q2') (x2', n2')"
          unfolding z by (rule in_step_exhausted)
        then show ?thesis
          using r1 ran_trans [OF rb ran_trans [OF p(2) q2']] by blast
      qed
    qed
  qed
qed

lemma write_bits_snd: "snd (write_bits bw v n) = drop_bit (unat n) v"
  by (simp add: write_bits_def Let_def)

lemma encode_planes_step':
  assumes "bits \<noteq> 0 \<and> kmin < k"
    and "encode_group bsize
           (fst (write_bits bw (bit_plane ublock (k - 1) bsize) (min n bits)), bits - min n bits,
            drop_bit (unat (min n bits)) (bit_plane ublock (k - 1) bsize), n) = (bw2, bits2, x2, n2)"
  shows "encode_planes bsize kmin ublock (bw, bits, k, n)
         = encode_planes bsize kmin ublock (bw2, bits2, k - 1, n2)"
  using assms(2) by (simp add: encode_planes_step [OF assms(1)] write_bits_snd)

lemma prefix_map_upt: "a \<le> b \<Longrightarrow> prefix (map f [0..<a]) (map f [0..<b])"
  by (metis le_Suc_ex map_append prefixI upt_add_eq_append zero_le)

lemma encode_planes_rel:
  assumes "encode_planes bsize kmin ublock (bw1, bits1, k, n) = (bw1', bits1', n1')"
    and "encode_planes bsize kmin ublock (bw2, bits2, k, n) = (bw2', bits2', n2')"
    and "within_budget B1 bw1 bits1" and "within_budget B2 bw2 bits2"
    and "0 < bsize" and "bsize \<le> 64" and "unat n \<le> bsize" and "unat bits1 \<le> unat bits2"
  shows "\<exists>o1 o2. ran bw1 bits1 o1 bw1' bits1' \<and> ran bw2 bits2 o2 bw2' bits2'
           \<and> in_step o1 bits1' n1' o2 n2'"
  using assms
proof (induction "unat k" arbitrary: bw1 bits1 bw2 bits2 k n rule: less_induct)
  case less
  from encode_planes_ran [OF less.prems(2,4,5,6,7)]
  obtain o2 where run2: "ran bw2 bits2 o2 bw2' bits2'" by blast
  show ?case
  proof (cases "bits1 \<noteq> 0 \<and> kmin < k")
    case False
    then have s1: "(bw1', bits1', n1') = (bw1, bits1, n)"
      using less.prems(1) by (simp add: encode_planes_stop [OF False])
    show ?thesis
    proof (cases "bits2 \<noteq> 0 \<and> kmin < k")
      case f2: False
      then have "(bw2', bits2', n2') = (bw2, bits2, n)"
        using less.prems(2) by (simp add: encode_planes_stop [OF f2])
      with s1 show ?thesis
        using ran_refl [of bw1 bits1] ran_refl [of bw2 bits2] by (auto simp: in_step_def)
    next
      case True
      with False have "bits1 = 0" by simp
      with s1 run2 show ?thesis
        using ran_refl [of bw1 bits1]
        by (intro exI [of _ "[]"] exI [of _ o2]) (auto simp: in_step_def)
    qed
  next
    case True
    then have b1: "bits1 \<noteq> 0" by simp
    then have "0 < unat bits1" by (simp add: unat_gt_0)
    with less.prems(8) have "0 < unat bits2" by simp
    then have b2: "bits2 \<noteq> 0" by auto
    with True have t2: "bits2 \<noteq> 0 \<and> kmin < k" by simp
    have k: "unat kmin < unat k" using True by (simp add: word_less_nat_alt)
    then have "k \<noteq> 0" by auto
    then have lt: "unat (k - 1) < unat k" using k by (simp add: unat_minus_one)
    have n64: "unat n \<le> 64" using less.prems(6,7) by simp
    define x where "x = bit_plane ublock (k - 1) bsize"
    define m1 where "m1 = min n bits1"
    define m2 where "m2 = min n bits2"
    define bwa where "bwa = fst (write_bits bw1 x m1)"
    define bwb where "bwb = fst (write_bits bw2 x m2)"
    have ra: "ran bw1 bits1 (map (bit x) [0..<min (unat n) (unat bits1)]) bwa (bits1 - m1)"
      unfolding bwa_def m1_def by (rule write_bits_ran [OF less.prems(3) n64])
    have rb: "ran bw2 bits2 (map (bit x) [0..<min (unat n) (unat bits2)]) bwb (bits2 - m2)"
      unfolding bwb_def m2_def by (rule write_bits_ran [OF less.prems(4) n64])
    note wa = within_budget_ran [OF less.prems(3) ra]
    note wb = within_budget_ran [OF less.prems(4) rb]
    obtain bw1g bits1g x1g n1g
      where g1: "encode_group bsize (bwa, bits1 - m1, drop_bit (unat m1) x, n) = (bw1g, bits1g, x1g, n1g)"
      by (metis prod_cases4)
    obtain bw2g bits2g x2g n2g
      where g2: "encode_group bsize (bwb, bits2 - m2, drop_bit (unat m2) x, n) = (bw2g, bits2g, x2g, n2g)"
      by (metis prod_cases4)
    have e1: "encode_planes bsize kmin ublock (bw1g, bits1g, k - 1, n1g) = (bw1', bits1', n1')"
      using less.prems(1) encode_planes_step' [OF True, of bsize bw1 ublock n bw1g bits1g x1g n1g] g1
      by (simp add: x_def m1_def bwa_def)
    have e2: "encode_planes bsize kmin ublock (bw2g, bits2g, k - 1, n2g) = (bw2', bits2', n2')"
      using less.prems(2) encode_planes_step' [OF t2, of bsize bw2 ublock n bw2g bits2g x2g n2g] g2
      by (simp add: x_def m2_def bwb_def)
    from encode_group_ran [OF g2 wb less.prems(5,6,7)]
    obtain og2 where og2: "ran bwb (bits2 - m2) og2 bw2g bits2g" "unat n2g \<le> bsize" by blast
    note w2g = within_budget_ran [OF wb og2(1)]
    from encode_planes_ran [OF e2 w2g less.prems(5,6) og2(2)]
    obtain or2 where or2: "ran bw2g bits2g or2 bw2' bits2'" by blast
    show ?thesis
    proof (cases "unat n \<le> unat bits1")
      case full: True
      then have mm: "m1 = n" "m2 = n"
        using less.prems(8) by (simp_all add: m1_def m2_def min_def word_le_nat_alt)
      have le: "unat (bits1 - m1) \<le> unat (bits2 - m2)"
        using full less.prems(8) unfolding mm by (simp add: unat_sub word_le_nat_alt)
      have g2': "encode_group bsize (bwb, bits2 - m2, drop_bit (unat m1) x, n) = (bw2g, bits2g, x2g, n2g)"
        using g2 mm by simp
      have eqo: "map (bit x) [0..<min (unat n) (unat bits1)] = map (bit x) [0..<min (unat n) (unat bits2)]"
        using full less.prems(8) by (simp add: min_def)
      from encode_group_rel [OF g1 g2' wa wb less.prems(5,6,7) le]
      obtain p1 p2 where p: "ran bwa (bits1 - m1) p1 bw1g bits1g" "ran bwb (bits2 - m2) p2 bw2g bits2g"
        "in_step p1 bits1g (x1g, n1g) p2 (x2g, n2g)" by blast
      note w1g = within_budget_ran [OF wa p(1)]
      note w2g' = within_budget_ran [OF wb p(2)]
      show ?thesis
      proof (cases "p1 = p2 \<and> (x1g, n1g) = (x2g, n2g)")
        case True
        then have eq: "p1 = p2" "n1g = n2g" by simp_all
        have le2: "unat bits1g \<le> unat bits2g"
          using p(1,2) le eq(1) by (simp add: ran_def)
        have e1': "encode_planes bsize kmin ublock (bw1g, bits1g, k - 1, n2g) = (bw1', bits1', n1')"
          using e1 eq by simp
        from less.hyps [OF lt e1' e2 w1g w2g' less.prems(5,6) og2(2) le2]
        obtain q1 q2 where q: "ran bw1g bits1g q1 bw1' bits1'" "ran bw2g bits2g q2 bw2' bits2'"
          "in_step q1 bits1' n1' q2 n2'" by blast
        have "in_step (map (bit x) [0..<min (unat n) (unat bits1)] @ p1 @ q1) bits1' n1'
                (map (bit x) [0..<min (unat n) (unat bits2)] @ p2 @ q2) n2'"
          using in_step_cons [OF q(3), of "map (bit x) [0..<min (unat n) (unat bits1)] @ p1"] eq(1) eqo
          by simp
        then show ?thesis
          using ran_trans [OF ra ran_trans [OF p(1) q(1)]] ran_trans [OF rb ran_trans [OF p(2) q(2)]]
          by blast
      next
        case False
        with p(3) have ex: "bits1g = 0" "prefix p1 p2" by (auto simp: in_step_def)
        have "(bw1', bits1', n1') = (bw1g, bits1g, n1g)"
          using e1 ex(1) by (simp add: encode_planes_stop)
        then have r1: "ran bw1 bits1 (map (bit x) [0..<min (unat n) (unat bits1)] @ p1) bw1' bits1'"
          and z: "bits1' = 0"
          using ran_trans [OF ra p(1)] ex(1) by simp_all
        from encode_planes_ran [OF e2 w2g' less.prems(5,6) og2(2)]
        obtain q2 where q2: "ran bw2g bits2g q2 bw2' bits2'" by blast
        have "prefix (map (bit x) [0..<min (unat n) (unat bits1)] @ p1)
                (map (bit x) [0..<min (unat n) (unat bits2)] @ p2 @ q2)"
          using ex(2) unfolding eqo by (simp add: prefix_prefix)
        then have "in_step (map (bit x) [0..<min (unat n) (unat bits1)] @ p1) bits1' n1'
                (map (bit x) [0..<min (unat n) (unat bits2)] @ p2 @ q2) n2'"
          unfolding z by (rule in_step_exhausted)
        then show ?thesis
          using r1 ran_trans [OF rb ran_trans [OF p(2) q2]] by blast
      qed
    next
      case cut: False
      then have m1: "m1 = bits1" by (simp add: m1_def min_def word_le_nat_alt)
      have "(bw1g, bits1g, x1g, n1g) = (bwa, 0, drop_bit (unat m1) x, n)"
        using g1 m1 by (simp add: encode_group_stop)
      then have "(bw1', bits1', n1') = (bwa, 0, n)"
        using e1 by (simp add: encode_planes_stop)
      then have r1: "ran bw1 bits1 (map (bit x) [0..<min (unat n) (unat bits1)]) bw1' bits1'"
        and z: "bits1' = 0"
        using ra m1 by simp_all
      have "min (unat n) (unat bits1) \<le> min (unat n) (unat bits2)"
        using less.prems(8) by simp
      then have "prefix (map (bit x) [0..<min (unat n) (unat bits1)])
                (map (bit x) [0..<min (unat n) (unat bits2)] @ og2 @ or2)"
        by (simp add: prefix_map_upt prefix_prefix)
      then have "in_step (map (bit x) [0..<min (unat n) (unat bits1)]) bits1' n1'
                (map (bit x) [0..<min (unat n) (unat bits2)] @ og2 @ or2) n2'"
        unfolding z by (rule in_step_exhausted)
      then show ?thesis
        using r1 ran_trans [OF rb ran_trans [OF og2(1) or2]] by blast
    qed
  qed
qed

subsection \<open>Runs that do not use up the budget\<close>

lemma encode_unary_shift:
  assumes "encode_unary bsize (bw, bits, x, n) = (bw', bits', x', n')"
    and "bits' \<noteq> 0" and "unat bits + unat d < 2 ^ 32"
  shows "encode_unary bsize (bw, bits + d, x, n) = (bw', bits' + d, x', n')"
  using assms
proof (induction "unat bits" arbitrary: bw bits x n rule: less_induct)
  case less
  show ?case
  proof (cases "n < word_of_nat bsize - 1")
    case False
    then show ?thesis using less.prems(1) by (simp add: encode_unary_stop)
  next
    case nlt: True
    have b0: "bits \<noteq> 0"
    proof
      assume "bits = 0"
      then have "bits' = 0" using less.prems(1) by (simp add: encode_unary_stop)
      with less.prems(2) show False by simp
    qed
    have "unat (bits + d) = unat bits + unat d" using less.prems(3) by (simp add: unat_word_ariths)
    moreover have "0 < unat bits" using b0 by (simp add: unat_gt_0)
    ultimately have bd: "bits + d \<noteq> 0" by auto
    have c1: "n < word_of_nat bsize - 1 \<and> bits \<noteq> 0" using nlt b0 by simp
    have c2: "n < word_of_nat bsize - 1 \<and> bits + d \<noteq> 0" using nlt bd by simp
    have sub: "bits + d - 1 = bits - 1 + d" by simp
    have p: "unat (bits - 1) < unat bits" "unat (bits - 1) + unat d < 2 ^ 32"
      using unat_pred [OF b0] less.prems(3) by auto
    show ?thesis
    proof (cases "ucast (x AND 1) = (0 :: uint)")
      case True
      have e: "encode_unary bsize (fst (write_bit bw (ucast (x AND 1))), bits - 1, drop_bit 1 x, n + 1)
               = (bw', bits', x', n')"
        using less.prems(1) True by (simp add: encode_unary_step [OF c1])
      from less.hyps [OF p(1) e less.prems(2) p(2)] show ?thesis
        using True by (simp add: encode_unary_step [OF c2] sub)
    next
      case False
      have "(fst (write_bit bw (ucast (x AND 1))), bits - 1, x, n) = (bw', bits', x', n')"
        using less.prems(1) False by (auto simp: encode_unary_step [OF c1])
      then show ?thesis
        unfolding encode_unary_step [OF c2] using False by (auto simp: sub)
    qed
  qed
qed

lemma encode_unary_le:
  assumes "encode_unary bsize (bw, bits, x, n) = (bw', bits', x', n')"
  shows "unat bits' \<le> unat bits"
  using assms
proof (induction "unat bits" arbitrary: bw bits x n rule: less_induct)
  case less
  show ?case
  proof (cases "n < word_of_nat bsize - 1 \<and> bits \<noteq> 0")
    case False
    then show ?thesis using less.prems by (simp add: encode_unary_stop [OF False])
  next
    case True
    then have p: "unat (bits - 1) < unat bits" using unat_pred [of bits] by auto
    show ?thesis
    proof (cases "ucast (x AND 1) = (0 :: uint)")
      case c0: True
      have e: "encode_unary bsize (fst (write_bit bw (ucast (x AND 1))), bits - 1, drop_bit 1 x, n + 1)
               = (bw', bits', x', n')"
        using less.prems c0 by (simp add: encode_unary_step [OF True])
      from less.hyps [OF p e] p show ?thesis by simp
    next
      case False
      then have "bits' = bits - 1" using less.prems by (simp add: encode_unary_step [OF True])
      then show ?thesis using p by simp
    qed
  qed
qed

lemma encode_group_shift:
  assumes "encode_group bsize (bw, bits, x, n) = (bw', bits', x', n')"
    and "bits' \<noteq> 0" and "unat bits + unat d < 2 ^ 32"
  shows "encode_group bsize (bw, bits + d, x, n) = (bw', bits' + d, x', n')"
  using assms
proof (induction "unat bits" arbitrary: bw bits x n rule: less_induct)
  case less
  show ?case
  proof (cases "n < word_of_nat bsize")
    case False
    then show ?thesis using less.prems(1) by (simp add: encode_group_stop)
  next
    case nlt: True
    have b0: "bits \<noteq> 0"
    proof
      assume "bits = 0"
      then have "bits' = 0" using less.prems(1) by (simp add: encode_group_stop)
      with less.prems(2) show False by simp
    qed
    have "unat (bits + d) = unat bits + unat d" using less.prems(3) by (simp add: unat_word_ariths)
    moreover have "0 < unat bits" using b0 by (simp add: unat_gt_0)
    ultimately have bd: "bits + d \<noteq> 0" by auto
    have c1: "n < word_of_nat bsize \<and> bits \<noteq> 0" using nlt b0 by simp
    have c2: "n < word_of_nat bsize \<and> bits + d \<noteq> 0" using nlt bd by simp
    have sub: "bits + d - 1 = bits - 1 + d" by simp
    have p: "unat (bits - 1) < unat bits" "unat (bits - 1) + unat d < 2 ^ 32"
      using unat_pred [OF b0] less.prems(3) by auto
    show ?thesis
    proof (cases "x = 0")
      case True
      have "(fst (write_bit bw 0), bits - 1, x, n) = (bw', bits', x', n')"
        using less.prems(1) True by (auto simp: encode_group_step [OF c1])
      then show ?thesis
        unfolding encode_group_step [OF c2] using True by (auto simp: sub)
    next
      case False
      obtain bw2 bits2 x2 n2
        where u: "encode_unary bsize (fst (write_bit bw 1), bits - 1, x, n) = (bw2, bits2, x2, n2)"
        by (metis prod_cases4)
      have e: "encode_group bsize (bw2, bits2, drop_bit 1 x2, n2 + 1) = (bw', bits', x', n')"
        using less.prems(1) False u by (simp add: encode_group_step [OF c1])
      have b2: "bits2 \<noteq> 0"
      proof
        assume "bits2 = 0"
        then have "bits' = 0" using e by (simp add: encode_group_stop)
        with less.prems(2) show False by simp
      qed
      have le: "unat bits2 \<le> unat (bits - 1)" by (rule encode_unary_le [OF u])
      have u': "encode_unary bsize (fst (write_bit bw 1), bits - 1 + d, x, n) = (bw2, bits2 + d, x2, n2)"
        by (rule encode_unary_shift [OF u b2 p(2)])
      have lt: "unat bits2 < unat bits" using le p(1) by simp
      have nw: "unat bits2 + unat d < 2 ^ 32" using le p(2) by simp
      from less.hyps [OF lt e less.prems(2) nw] show ?thesis
        using False u' by (simp add: encode_group_step [OF c2] sub)
    qed
  qed
qed

lemma encode_group_le:
  assumes "encode_group bsize (bw, bits, x, n) = (bw', bits', x', n')"
  shows "unat bits' \<le> unat bits"
  using assms
proof (induction "unat bits" arbitrary: bw bits x n rule: less_induct)
  case less
  show ?case
  proof (cases "n < word_of_nat bsize \<and> bits \<noteq> 0")
    case False
    then show ?thesis using less.prems by (simp add: encode_group_stop [OF False])
  next
    case True
    then have p: "unat (bits - 1) < unat bits" using unat_pred [of bits] by auto
    show ?thesis
    proof (cases "x = 0")
      case x0: True
      then have "bits' = bits - 1" using less.prems by (simp add: encode_group_step [OF True])
      then show ?thesis using p by simp
    next
      case False
      obtain bw2 bits2 x2 n2
        where u: "encode_unary bsize (fst (write_bit bw 1), bits - 1, x, n) = (bw2, bits2, x2, n2)"
        by (metis prod_cases4)
      have e: "encode_group bsize (bw2, bits2, drop_bit 1 x2, n2 + 1) = (bw', bits', x', n')"
        using less.prems False u by (simp add: encode_group_step [OF True])
      have le: "unat bits2 \<le> unat (bits - 1)" by (rule encode_unary_le [OF u])
      then have "unat bits2 < unat bits" using p by simp
      from less.hyps [OF this e] le p show ?thesis by simp
    qed
  qed
qed

lemma encode_planes_shift:
  assumes "encode_planes bsize kmin ublock (bw, bits, k, n) = (bw', bits', n')"
    and "bits' \<noteq> 0" and "unat bits + unat d < 2 ^ 32"
  shows "encode_planes bsize kmin ublock (bw, bits + d, k, n) = (bw', bits' + d, n')"
  using assms
proof (induction "unat k" arbitrary: bw bits k n rule: less_induct)
  case less
  show ?case
  proof (cases "kmin < k")
    case False
    then show ?thesis using less.prems(1) by (simp add: encode_planes_stop)
  next
    case klt: True
    have b0: "bits \<noteq> 0"
    proof
      assume "bits = 0"
      then have "bits' = 0" using less.prems(1) by (simp add: encode_planes_stop)
      with less.prems(2) show False by simp
    qed
    have ud: "unat (bits + d) = unat bits + unat d" using less.prems(3) by (simp add: unat_word_ariths)
    moreover have "0 < unat bits" using b0 by (simp add: unat_gt_0)
    ultimately have bd: "bits + d \<noteq> 0" by auto
    have c1: "bits \<noteq> 0 \<and> kmin < k" using klt b0 by simp
    have c2: "bits + d \<noteq> 0 \<and> kmin < k" using klt bd by simp
    have k: "unat kmin < unat k" using klt by (simp add: word_less_nat_alt)
    then have "k \<noteq> 0" by auto
    then have lt: "unat (k - 1) < unat k" using k by (simp add: unat_minus_one)
    define x where "x = bit_plane ublock (k - 1) bsize"
    obtain bw2 bits2 x2 n2
      where g: "encode_group bsize (fst (write_bits bw x (min n bits)), bits - min n bits,
                  drop_bit (unat (min n bits)) x, n) = (bw2, bits2, x2, n2)"
      by (metis prod_cases4)
    have e: "encode_planes bsize kmin ublock (bw2, bits2, k - 1, n2) = (bw', bits', n')"
      using less.prems(1) encode_planes_step' [OF c1, of bsize bw ublock n bw2 bits2 x2 n2] g
      by (simp add: x_def)
    have b2: "bits2 \<noteq> 0"
    proof
      assume "bits2 = 0"
      then have "bits' = 0" using e by (simp add: encode_planes_stop)
      with less.prems(2) show False by simp
    qed
    have nle: "unat n \<le> unat bits"
    proof (rule ccontr)
      assume "\<not> unat n \<le> unat bits"
      then have "min n bits = bits" by (simp add: min_def word_le_nat_alt)
      then have "bits2 = 0" using g by (simp add: encode_group_stop)
      with b2 show False by simp
    qed
    then have m1: "min n bits = n" by (simp add: min_def word_le_nat_alt)
    have m2: "min n (bits + d) = n" using nle ud by (simp add: min_def word_le_nat_alt)
    have sub: "bits + d - n = bits - n + d" by simp
    have un: "unat (bits - n) = unat bits - unat n" using nle by (simp add: unat_sub word_le_nat_alt)
    have nw1: "unat (bits - n) + unat d < 2 ^ 32" using un less.prems(3) by simp
    have g1: "encode_group bsize (fst (write_bits bw x n), bits - n, drop_bit (unat n) x, n)
              = (bw2, bits2, x2, n2)"
      using g m1 by simp
    have g2: "encode_group bsize (fst (write_bits bw x n), bits - n + d, drop_bit (unat n) x, n)
              = (bw2, bits2 + d, x2, n2)"
      by (rule encode_group_shift [OF g1 b2 nw1])
    have "unat bits2 \<le> unat (bits - n)" by (rule encode_group_le [OF g1])
    then have nw2: "unat bits2 + unat d < 2 ^ 32" using nw1 by simp
    have "encode_planes bsize kmin ublock (bw, bits + d, k, n)
          = encode_planes bsize kmin ublock (bw2, bits2 + d, k - 1, n2)"
      by (rule encode_planes_step' [OF c2]) (use g2 in \<open>simp add: m2 sub x_def\<close>)
    also have "\<dots> = (bw', bits' + d, n')"
      by (rule less.hyps [OF lt e less.prems(2) nw2])
    finally show ?thesis .
  qed
qed

subsection \<open>The block encoder\<close>

lemma gbit_zero_stream [simp]: "\<not> gbit zero_stream j"
  by (simp add: gbit_def zero_stream_def)

lemma emitted_ran:
  assumes "ran bw bits out bw' bits'"
  shows "emitted bw' = emitted bw @ out"
proof -
  have a: "appended bw out bw'" using assms by (simp add: ran_def)
  then have bb: "base_bit bw' = base_bit bw" and cc: "cursor bw' = cursor bw + length out"
    by (simp_all add: appended_def base_bit_def cursor_def)
  have g: "gbit (m_stream bw') j =
           (if cursor bw \<le> j \<and> j < cursor bw + length out then out ! (j - cursor bw)
            else gbit (m_stream bw) j)" for j
    using a by (simp add: appended_def)
  have le: "base_bit bw \<le> cursor bw" by (simp add: cursor_def)
  have "[base_bit bw..<cursor bw + length out] = [base_bit bw..<cursor bw] @ [cursor bw..<cursor bw + length out]"
    by (rule upt_add_eq_append [OF le])
  moreover have "map (gbit (m_stream bw')) [base_bit bw..<cursor bw] = map (gbit (m_stream bw)) [base_bit bw..<cursor bw]"
    by (rule map_cong) (auto simp: g)
  moreover have "map (gbit (m_stream bw')) [cursor bw..<cursor bw + length out] = out"
    by (rule nth_equalityI) (auto simp: g)
  ultimately show ?thesis by (simp add: emitted_def bb cc)
qed

lemma new_writer:
  assumes "unat idx * unat mb + R < 2 ^ 32"
    and "\<forall>j. unat idx * unat mb \<le> j \<and> j < unat idx * unat mb + R \<longrightarrow> \<not> gbit s j"
  shows "room R (BlockWriter_new s mb idx)"
    and "base_bit (BlockWriter_new s mb idx) = unat idx * unat mb"
    and "cursor (BlockWriter_new s mb idx) = unat idx * unat mb"
    and "m_current_bit (BlockWriter_new s mb idx) = 0"
    and "m_stream (BlockWriter_new s mb idx) = s"
proof -
  have p: "unat (idx * mb) = unat idx * unat mb"
    using assms(1) by (simp add: unat_word_ariths)
  have d: "unat ((idx * mb) div 64) = unat (idx * mb) div 64"
    and m: "unat ((idx * mb) mod 64) = unat (idx * mb) mod 64"
    by (simp_all add: unat_div unat_mod)
  show b: "base_bit (BlockWriter_new s mb idx) = unat idx * unat mb"
    by (simp add: base_bit_def BlockWriter_new_def d m p)
  show "cursor (BlockWriter_new s mb idx) = unat idx * unat mb"
    using b by (simp add: cursor_def BlockWriter_new_def)
  show "m_current_bit (BlockWriter_new s mb idx) = 0" "m_stream (BlockWriter_new s mb idx) = s"
    by (simp_all add: BlockWriter_new_def)
  show "room R (BlockWriter_new s mb idx)"
    unfolding room_def cursor_def b using assms
    by (simp add: BlockWriter_new_def m)
qed

lemma BlockSize_bounds: "0 < BlockSize bs" "BlockSize bs \<le> 64"
  by (cases bs; simp)+

lemma encode_block_planes:
  fixes iblock :: "'a::len word list"
  shows "\<exists>kmin ublock. \<forall>bw maxbits.
           encode_block bs perm bw maxbits maxprec iblock =
           fst (encode_planes (BlockSize bs) kmin (ublock :: 'a word list) (bw, maxbits, word_of_nat LENGTH('a), 0))"
  by (intro exI allI) (simp add: encode_block_def Let_def)

lemma encode_block_ran:
  fixes iblock :: "'a::len word list"
  assumes "within_budget B bw maxbits"
  shows "\<exists>out r. ran bw maxbits out (encode_block bs perm bw maxbits maxprec iblock) r
           \<and> length out \<le> code_bound TYPE('a) bs"
proof -
  obtain kmin and ublock :: "'a word list" where e: "encode_block bs perm bw maxbits maxprec iblock =
      fst (encode_planes (BlockSize bs) kmin ublock (bw, maxbits, word_of_nat LENGTH('a), 0))"
    using encode_block_planes [of bs perm maxprec iblock] by blast
  obtain bw' r n' where p: "encode_planes (BlockSize bs) kmin ublock (bw, maxbits, word_of_nat LENGTH('a), 0)
      = (bw', r, n')" by (metis prod_cases3)
  from encode_planes_ran [OF p assms BlockSize_bounds]
  obtain out where o: "ran bw maxbits out bw' r"
    "length out \<le> (unat (word_of_nat LENGTH('a) :: uint) - unat kmin) * (2 * BlockSize bs + 1)"
    by auto
  have "unat (word_of_nat LENGTH('a) :: uint) \<le> LENGTH('a)"
    by (simp add: unat_of_nat)
  then have "(unat (word_of_nat LENGTH('a) :: uint) - unat kmin) * (2 * BlockSize bs + 1)
             \<le> code_bound TYPE('a) bs"
    unfolding code_bound_def by (intro mult_le_mono1) simp
  then show ?thesis using o e p by (intro exI [of _ out] exI [of _ r]) simp
qed

lemma encode_block_rel:
  fixes iblock :: "'a::len word list"
  assumes "within_budget B1 bw1 m1" and "within_budget B2 bw2 m2" and "unat m1 \<le> unat m2"
  shows "\<exists>o1 o2 r1 r2.
           ran bw1 m1 o1 (encode_block bs perm bw1 m1 maxprec iblock) r1
         \<and> ran bw2 m2 o2 (encode_block bs perm bw2 m2 maxprec iblock) r2
         \<and> (o1 = o2 \<or> (r1 = 0 \<and> prefix o1 o2))"
proof -
  obtain kmin and ublock :: "'a word list" where e: "\<And>bw maxbits. encode_block bs perm bw maxbits maxprec iblock =
      fst (encode_planes (BlockSize bs) kmin ublock (bw, maxbits, word_of_nat LENGTH('a), 0))"
    using encode_block_planes [of bs perm maxprec iblock] by blast
  obtain bw1' r1 n1' where p1: "encode_planes (BlockSize bs) kmin ublock (bw1, m1, word_of_nat LENGTH('a), 0)
      = (bw1', r1, n1')" by (metis prod_cases3)
  obtain bw2' r2 n2' where p2: "encode_planes (BlockSize bs) kmin ublock (bw2, m2, word_of_nat LENGTH('a), 0)
      = (bw2', r2, n2')" by (metis prod_cases3)
  from encode_planes_rel [OF p1 p2 assms(1,2) BlockSize_bounds _ assms(3)]
  obtain o1 o2 where o: "ran bw1 m1 o1 bw1' r1" "ran bw2 m2 o2 bw2' r2" "in_step o1 r1 n1' o2 n2'"
    by auto
  show ?thesis
    using o p1 p2 by (intro exI [of _ o1] exI [of _ o2] exI [of _ r1] exI [of _ r2])
      (auto simp: e in_step_def)
qed

lemma encode_block_shift:
  fixes iblock :: "'a::len word list"
  assumes "within_budget B bw L" and "code_bound TYPE('a) bs < unat L" and "unat L + unat d < 2 ^ 32"
  shows "encode_block bs perm bw (L + d) maxprec iblock = encode_block bs perm bw L maxprec iblock"
proof -
  obtain kmin and ublock :: "'a word list" where e: "\<And>bw maxbits. encode_block bs perm bw maxbits maxprec iblock =
      fst (encode_planes (BlockSize bs) kmin ublock (bw, maxbits, word_of_nat LENGTH('a), 0))"
    using encode_block_planes [of bs perm maxprec iblock] by blast
  obtain bw' r n' where p: "encode_planes (BlockSize bs) kmin ublock (bw, L, word_of_nat LENGTH('a), 0)
      = (bw', r, n')" by (metis prod_cases3)
  from encode_planes_ran [OF p assms(1) BlockSize_bounds]
  obtain out where o: "ran bw L out bw' r"
    "length out \<le> (unat (word_of_nat LENGTH('a) :: uint) - unat kmin) * (2 * BlockSize bs + 1)"
    by auto
  have "unat (word_of_nat LENGTH('a) :: uint) \<le> LENGTH('a)"
    by (simp add: unat_of_nat)
  then have "(unat (word_of_nat LENGTH('a) :: uint) - unat kmin) * (2 * BlockSize bs + 1)
             \<le> code_bound TYPE('a) bs"
    unfolding code_bound_def by (intro mult_le_mono1) simp
  with o assms(2) have "0 < unat r" by (simp add: ran_def)
  then have "r \<noteq> 0" by auto
  from encode_planes_shift [OF p this assms(3)] show ?thesis
    by (simp add: e p)
qed

subsection \<open>The drivers\<close>

lemma ebits_cases: "unat (get_ebits kind + 1) = 9 \<or> unat (get_ebits kind + 1) = 12"
  by (cases kind) simp_all

lemma float_driver_plan:
  "\<exists>plan :: (uint \<times> cint \<times> 'a::len word list) option option. \<forall>mb idx s.
     zfp_encode_block (conv :: undefined_cast \<Rightarrow> 'a word) kind me bs perm fblock mb idx s =
       (case plan of
          None \<Rightarrow> None
        | Some None \<Rightarrow> Some (BlockWriter_new s mb idx)
        | Some (Some (e, maxprec, iblock)) \<Rightarrow>
            Some (encode_block bs perm
                    (fst (write_bits (BlockWriter_new s mb idx) (ucast (2 * e + 1)) (get_ebits kind + 1)))
                    (mb - (get_ebits kind + 1)) maxprec iblock))"
proof (cases "max_exponent kind bs fblock")
  case None
  then show ?thesis by (intro exI [of _ None]) (simp add: zfp_encode_block_def)
next
  case (Some emax)
  define maxprec where "maxprec = precision emax (get_precision kind) me"
  define e :: uint where "e = (if maxprec \<noteq> 0 then emax + get_ebias kind else 0)"
  show ?thesis
  proof (cases "e = 0")
    case True
    then show ?thesis using Some
      by (intro exI [of _ "Some None"]) (simp add: zfp_encode_block_def Let_def e_def maxprec_def)
  next
    case False
    then show ?thesis using Some
      by (intro exI [of _ "Some (Some (e, maxprec, fwd_cast conv kind bs fblock emax))"])
        (simp add: zfp_encode_block_def Let_def e_def maxprec_def)
  qed
qed

text \<open>A block without an infinity has an exponent, and the driver returns.\<close>

lemma fold_max_finite:
  assumes "is_finite kind acc" and "\<forall>i \<in> set js. is_finite kind (p ! i)"
  shows "is_finite kind (fold (\<lambda>i max_val. fp_max kind max_val (fabs (p ! i))) js acc)"
  using assms by (induction js arbitrary: acc) (auto simp: fp_max_def fabs_def is_finite_def)

lemma finite_block_max_exponent:
  assumes "finite_block kind bs fblock"
  shows "\<exists>emax. max_exponent kind bs fblock = Some emax"
proof -
  have "is_finite kind fp_zero"
    by (cases kind) (simp_all add: is_finite_def fp_zero_def)
  moreover have "\<forall>i \<in> set [0..<BlockSize bs]. is_finite kind (fblock ! i)"
    using assms by (simp add: finite_block_def)
  ultimately have "is_finite kind
      (fold (\<lambda>i max_val. fp_max kind max_val (fabs (fblock ! i))) [0..<BlockSize bs] fp_zero)"
    by (rule fold_max_finite)
  then show ?thesis
    by (simp add: max_exponent_def exponent_def)
qed

lemma float_driver_total:
  assumes "finite_block kind bs fblock"
  shows "\<exists>bw. zfp_encode_block conv kind me bs perm fblock mb idx s = Some bw"
  using finite_block_max_exponent [OF assms] by (auto simp: zfp_encode_block_def Let_def)

lemma zero_block_finite:
  assumes "zero_block bs fblock"
  shows "finite_block kind bs fblock"
  using assms by (cases kind) (simp_all add: zero_block_def finite_block_def is_finite_def)

lemma stays_in_block_ran:
  assumes nw: "unat block_idx * unat maxbits + unat maxbits < 2 ^ 32"
    and z: "\<forall>j. unat block_idx * unat maxbits \<le> j \<and> j < unat block_idx * unat maxbits + unat maxbits
              \<longrightarrow> \<not> gbit stream j"
    and r: "ran (BlockWriter_new stream maxbits block_idx) maxbits out bw r"
  shows "stays_in_block stream maxbits block_idx bw"
proof -
  note w = new_writer [OF nw z]
  have a: "appended (BlockWriter_new stream maxbits block_idx) out bw"
    and l: "length out \<le> unat maxbits"
    using r by (auto simp: ran_def)
  then show ?thesis
    unfolding stays_in_block_def appended_def w by auto
qed

lemma header_ran:
  assumes "within_budget B bw mb" and "unat (get_ebits kind + 1) \<le> unat mb"
  shows "ran bw mb (map (bit v) [0..<unat (get_ebits kind + 1)])
           (fst (write_bits bw v (get_ebits kind + 1))) (mb - (get_ebits kind + 1))"
proof -
  have n: "unat (get_ebits kind + 1) \<le> 64" using ebits_cases [of kind] by auto
  have m: "min (get_ebits kind + 1) mb = get_ebits kind + 1"
    using assms(2) by (simp add: min_def word_le_nat_alt)
  have "min (unat (get_ebits kind + 1)) (unat mb) = unat (get_ebits kind + 1)"
    using assms(2) by simp
  with write_bits_ran [OF assms(1) n, of v] show ?thesis
    unfolding m by simp
qed

lemma new_within_budget:
  assumes nw: "unat block_idx * unat maxbits + unat maxbits < 2 ^ 32"
    and z: "\<forall>j. unat block_idx * unat maxbits \<le> j \<and> j < unat block_idx * unat maxbits + unat maxbits
              \<longrightarrow> \<not> gbit stream j"
  shows "within_budget (unat maxbits) (BlockWriter_new stream maxbits block_idx) maxbits"
  using new_writer [OF nw z] by (simp add: within_budget_def)

lemma int_driver_in_block:
  fixes iblock :: "'a::len word list"
  assumes nw: "unat block_idx * unat maxbits + unat maxbits < 2 ^ 32"
    and z: "\<forall>j. unat block_idx * unat maxbits \<le> j \<and> j < unat block_idx * unat maxbits + unat maxbits
              \<longrightarrow> \<not> gbit stream j"
  shows "stays_in_block stream maxbits block_idx
           (zfp_encode_block_int bs perm iblock maxbits block_idx stream)"
proof -
  from encode_block_ran [OF new_within_budget [OF nw z], of bs perm "word_of_nat LENGTH('a)" iblock]
  obtain out r where "ran (BlockWriter_new stream maxbits block_idx) maxbits out
      (zfp_encode_block_int bs perm iblock maxbits block_idx stream) r"
    by (auto simp: zfp_encode_block_int_def Let_def)
  then show ?thesis by (rule stays_in_block_ran [OF nw z])
qed

lemma float_driver_in_block:
  assumes nw: "unat block_idx * unat maxbits + unat maxbits < 2 ^ 32"
    and z: "\<forall>j. unat block_idx * unat maxbits \<le> j \<and> j < unat block_idx * unat maxbits + unat maxbits
              \<longrightarrow> \<not> gbit stream j"
    and h: "unat (get_ebits kind + 1) \<le> unat maxbits \<or> zero_block bs fblock"
    and r: "zfp_encode_block (conv :: undefined_cast \<Rightarrow> 'a::len word) kind me bs perm fblock maxbits block_idx stream = Some bw"
  shows "stays_in_block stream maxbits block_idx bw"
proof -
  note wb = new_within_budget [OF nw z]
  define bw0 where "bw0 = BlockWriter_new stream maxbits block_idx"
  have r0: "stays_in_block stream maxbits block_idx bw0"
    unfolding bw0_def by (rule stays_in_block_ran [OF nw z ran_refl])
  show ?thesis
  proof (cases "zero_block bs fblock")
    case True
    then have "zfp_encode_block (conv :: undefined_cast \<Rightarrow> 'a word) kind me bs perm fblock maxbits block_idx stream = Some bw0"
      unfolding bw0_def zero_block_def by (rule zero_block_unwritten)
    with r r0 show ?thesis by simp
  next
    case False
    with h have hb: "unat (get_ebits kind + 1) \<le> unat maxbits" by simp
    obtain plan :: "(uint \<times> cint \<times> 'a word list) option option" where p: "\<And>mb idx s.
       zfp_encode_block (conv :: undefined_cast \<Rightarrow> 'a word) kind me bs perm fblock mb idx s =
       (case plan of
          None \<Rightarrow> None
        | Some None \<Rightarrow> Some (BlockWriter_new s mb idx)
        | Some (Some (e, maxprec, iblock)) \<Rightarrow>
            Some (encode_block bs perm
                    (fst (write_bits (BlockWriter_new s mb idx) (ucast (2 * e + 1)) (get_ebits kind + 1)))
                    (mb - (get_ebits kind + 1)) maxprec iblock))"
      using float_driver_plan [of conv kind me bs perm fblock] by blast
    show ?thesis
    proof (cases plan)
      case None
      with r p show ?thesis by simp
    next
      case (Some q)
      show ?thesis
      proof (cases q)
        case None
        with Some r p r0 show ?thesis by (simp add: bw0_def)
      next
        case (Some t)
        obtain e maxprec iblock where t: "t = (e, maxprec, iblock)" by (cases t) auto
        define bwh where "bwh = fst (write_bits bw0 (ucast (2 * e + 1)) (get_ebits kind + 1))"
        have bw: "bw = encode_block bs perm bwh (maxbits - (get_ebits kind + 1)) maxprec iblock"
          using r p [of maxbits block_idx stream] Some \<open>plan = Some q\<close> t by (simp add: bwh_def bw0_def)
        have rh: "ran bw0 maxbits (map (bit (ucast (2 * e + 1) :: uint64)) [0..<unat (get_ebits kind + 1)])
                    bwh (maxbits - (get_ebits kind + 1))"
          unfolding bwh_def bw0_def by (rule header_ran [OF wb hb])
        from encode_block_ran [OF within_budget_ran [OF wb rh [unfolded bw0_def]], of bs perm maxprec iblock]
        obtain out r' where "ran bwh (maxbits - (get_ebits kind + 1)) out bw r'"
          by (auto simp: bw)
        from ran_trans [OF rh this] show ?thesis
          unfolding bw0_def by (rule stays_in_block_ran [OF nw z])
      qed
    qed
  qed
qed

lemma emitted_new: "emitted (BlockWriter_new s mb idx) = []"
  by (simp add: emitted_def cursor_def BlockWriter_new_def)

lemma zero_within_budget:
  assumes "unat idx * unat mb + R < 2 ^ 32" and "unat bits \<le> R"
  shows "within_budget R (BlockWriter_new zero_stream mb idx) bits"
proof -
  have "\<forall>j. unat idx * unat mb \<le> j \<and> j < unat idx * unat mb + R \<longrightarrow> \<not> gbit zero_stream j"
    by simp
  from new_writer [OF assms(1) this] assms(2) show ?thesis
    by (simp add: within_budget_def)
qed

lemma int_driver_prefix:
  fixes iblock :: "'a::len word list"
  assumes le: "unat b \<le> unat B" and nw: "unat block_idx * unat B + unat B < 2 ^ 32"
  shows "prefix (emitted (zfp_encode_block_int bs perm iblock b block_idx zero_stream))
                (emitted (zfp_encode_block_int bs perm iblock B block_idx zero_stream))"
proof -
  have "unat block_idx * unat b \<le> unat block_idx * unat B" using le by simp
  then have nwb: "unat block_idx * unat b + unat b < 2 ^ 32" using le nw by linarith
  note w1 = zero_within_budget [OF nwb order_refl]
  note w2 = zero_within_budget [OF nw order_refl]
  from encode_block_rel [OF w1 w2 le, of bs perm "word_of_nat LENGTH('a)" iblock]
  obtain o1 o2 r1 r2 where
    o: "ran (BlockWriter_new zero_stream b block_idx) b o1
          (zfp_encode_block_int bs perm iblock b block_idx zero_stream) r1"
       "ran (BlockWriter_new zero_stream B block_idx) B o2
          (zfp_encode_block_int bs perm iblock B block_idx zero_stream) r2"
       "prefix o1 o2"
    by (auto simp: zfp_encode_block_int_def Let_def)
  show ?thesis
    using o(3) by (simp add: emitted_ran [OF o(1)] emitted_ran [OF o(2)] emitted_new)
qed

lemma unlimited_gt:
  "unat (get_ebits kind + 1) + (code_bound T bs + 1) \<le> unlimited T bs"
  using ebits_cases [of kind] by (auto simp: unlimited_def code_bound_def)

lemma header_appended_room:
  assumes r: "room R bw" and c: "m_current_bit bw = 0" and h: "unat (get_ebits kind + 1) + unat L \<le> R"
  shows "ran bw (get_ebits kind + 1 + L) (map (bit v) [0..<unat (get_ebits kind + 1)])
           (fst (write_bits bw v (get_ebits kind + 1))) L"
    and "within_budget R (fst (write_bits bw v (get_ebits kind + 1))) L"
proof -
  have n: "unat (get_ebits kind + 1) \<le> 64" using ebits_cases [of kind] by auto
  have le: "unat (m_current_bit bw) + unat (get_ebits kind + 1) \<le> R" using c h by simp
  have a: "appended bw (map (bit v) [0..<unat (get_ebits kind + 1)])
             (fst (write_bits bw v (get_ebits kind + 1)))"
    by (rule write_bits_appended(1) [OF r le n])
  have "R < 2 ^ 32" using r by (simp add: room_def)
  then have u: "unat (get_ebits kind + 1 + L) = unat (get_ebits kind + 1) + unat L"
    using h by (simp add: unat_word_ariths)
  show "ran bw (get_ebits kind + 1 + L) (map (bit v) [0..<unat (get_ebits kind + 1)])
           (fst (write_bits bw v (get_ebits kind + 1))) L"
    using a by (simp add: ran_def u)
  have "room R (fst (write_bits bw v (get_ebits kind + 1)))"
    by (rule room_appended [OF r a]) (use le in simp)
  moreover have "unat (m_current_bit (fst (write_bits bw v (get_ebits kind + 1))))
                 = unat (get_ebits kind + 1)"
    using a c by (simp add: appended_def)
  ultimately show "within_budget R (fst (write_bits bw v (get_ebits kind + 1))) L"
    using h by (simp add: within_budget_def)
qed

lemma float_driver_prefix:
  assumes le: "unat b \<le> unat B" and nw: "unat block_idx * unat B + unat B < 2 ^ 32"
    and h: "unat (get_ebits kind + 1) \<le> unat b
            \<or> (unlimited TYPE('a) bs \<le> unat B
                \<and> unat block_idx * unat b + unlimited TYPE('a) bs < 2 ^ 32)"
  shows "(case (zfp_encode_block (conv :: undefined_cast \<Rightarrow> 'a::len word) kind me bs perm fblock b block_idx zero_stream,
                zfp_encode_block (conv :: undefined_cast \<Rightarrow> 'a word) kind me bs perm fblock B block_idx zero_stream) of
            (Some bw1, Some bw2) \<Rightarrow> prefix (emitted bw1) (emitted bw2)
          | (None, None) \<Rightarrow> True
          | _ \<Rightarrow> False)"
proof -
  have "unat block_idx * unat b \<le> unat block_idx * unat B" using le by simp
  then have nwb: "unat block_idx * unat b + unat b < 2 ^ 32" using le nw by linarith
  note w1 = zero_within_budget [OF nwb order_refl]
  note w2 = zero_within_budget [OF nw order_refl]
  define hd where "hd = get_ebits kind + 1"
  obtain plan :: "(uint \<times> cint \<times> 'a word list) option option" where p: "\<And>mb idx s.
       zfp_encode_block (conv :: undefined_cast \<Rightarrow> 'a word) kind me bs perm fblock mb idx s =
       (case plan of
          None \<Rightarrow> None
        | Some None \<Rightarrow> Some (BlockWriter_new s mb idx)
        | Some (Some (e, maxprec, iblock)) \<Rightarrow>
            Some (encode_block bs perm
                    (fst (write_bits (BlockWriter_new s mb idx) (ucast (2 * e + 1)) hd))
                    (mb - hd) maxprec iblock))"
    using float_driver_plan [of conv kind me bs perm fblock] unfolding hd_def by blast
  show ?thesis
  proof (cases plan)
    case None
    then show ?thesis by (simp add: p)
  next
    case (Some q)
    show ?thesis
    proof (cases q)
      case None
      with Some show ?thesis by (simp add: p emitted_new)
    next
      case (Some t)
      obtain e maxprec iblock where t: "t = (e, maxprec, iblock)" by (cases t) auto
      define v :: uint64 where "v = ucast (2 * e + 1)"
      define hbits where "hbits = map (bit v) [0..<unat hd]"
      define bw0b where "bw0b = BlockWriter_new zero_stream b block_idx"
      define bw0B where "bw0B = BlockWriter_new zero_stream B block_idx"
      define bwhb where "bwhb = fst (write_bits bw0b v hd)"
      define bwhB where "bwhB = fst (write_bits bw0B v hd)"
      have rb: "zfp_encode_block (conv :: undefined_cast \<Rightarrow> 'a word) kind me bs perm fblock b block_idx zero_stream
                = Some (encode_block bs perm bwhb (b - hd) maxprec iblock)"
        and rB: "zfp_encode_block (conv :: undefined_cast \<Rightarrow> 'a word) kind me bs perm fblock B block_idx zero_stream
                = Some (encode_block bs perm bwhB (B - hd) maxprec iblock)"
        using Some \<open>plan = Some q\<close> t by (simp_all add: p bwhb_def bwhB_def bw0b_def bw0B_def v_def)
      have main: "prefix (emitted (encode_block bs perm bwhb (b - hd) maxprec iblock))
                         (emitted (encode_block bs perm bwhB (B - hd) maxprec iblock))"
      proof (cases "unat hd \<le> unat b")
        case True
        then have hB: "unat hd \<le> unat B" using le by simp
        have hb1: "ran bw0b b hbits bwhb (b - hd)"
          unfolding bw0b_def bwhb_def hbits_def hd_def
          by (rule header_ran [OF w1]) (use True in \<open>simp add: hd_def\<close>)
        have hb2: "ran bw0B B hbits bwhB (B - hd)"
          unfolding bw0B_def bwhB_def hbits_def hd_def
          by (rule header_ran [OF w2]) (use hB in \<open>simp add: hd_def\<close>)
        have le': "unat (b - hd) \<le> unat (B - hd)"
          using True hB le by (simp add: unat_sub word_le_nat_alt)
        from encode_block_rel [OF within_budget_ran [OF w1 hb1 [unfolded bw0b_def]]
            within_budget_ran [OF w2 hb2 [unfolded bw0B_def]] le', of bs perm maxprec iblock]
        obtain o1 o2 r1 r2 where
          o: "ran bwhb (b - hd) o1 (encode_block bs perm bwhb (b - hd) maxprec iblock) r1"
             "ran bwhB (B - hd) o2 (encode_block bs perm bwhB (B - hd) maxprec iblock) r2"
             "prefix o1 o2"
          by auto
        show ?thesis
          using o(3)
          by (simp add: emitted_ran [OF ran_trans [OF hb1 o(1)]] emitted_ran [OF ran_trans [OF hb2 o(2)]]
              bw0b_def bw0B_def emitted_new)
      next
        case False
        with h have u: "unlimited TYPE('a) bs \<le> unat B"
          and nwu: "unat block_idx * unat b + unlimited TYPE('a) bs < 2 ^ 32"
          by (simp_all add: hd_def)
        define L0 where "L0 = code_bound TYPE('a) bs + 1"
        define L :: uint where "L = word_of_nat L0"
        note ug = unlimited_gt [of kind "TYPE('a)" bs, folded hd_def L0_def]
        have L0: "L0 < 2 ^ 32" using ug nwu by simp
        then have uL: "unat L = L0" by (simp add: L_def unat_of_nat)
        have hB: "unat hd \<le> unat B" using ug u by simp
        have hb2: "ran bw0B B hbits bwhB (B - hd)"
          unfolding bw0B_def bwhB_def hbits_def hd_def
          by (rule header_ran [OF w2]) (use hB in \<open>simp add: hd_def\<close>)
        define R where "R = unat hd + L0"
        have nwR: "unat block_idx * unat b + R < 2 ^ 32" using ug nwu by (simp add: R_def)
        have z: "\<forall>j. unat block_idx * unat b \<le> j \<and> j < unat block_idx * unat b + R
                    \<longrightarrow> \<not> gbit zero_stream j" by simp
        note nr = new_writer [OF nwR z]
        have hR: "unat (get_ebits kind + 1) + unat L \<le> R" by (simp add: R_def uL hd_def)
        have hr: "ran bw0b (hd + L) hbits bwhb L" "within_budget R bwhb L"
          unfolding bw0b_def bwhb_def hbits_def hd_def
          by (rule header_appended_room [OF nr(1) nr(4) hR])+
        have ub: "unat (b - hd) = 2 ^ 32 + unat b - unat hd"
          using False by (simp add: unat_sub_if_size word_size)
        have hd12: "unat hd \<le> 12" using ebits_cases [of kind] by (auto simp: hd_def)
        define d where "d = b - hd - L"
        have Lle: "L \<le> b - hd" using ub L0 uL hd12 ug nwu
          by (simp add: word_le_nat_alt unlimited_def)
        then have "unat d = unat (b - hd) - unat L" by (simp add: d_def unat_sub)
        then have nwd: "unat L + unat d < 2 ^ 32"
          using Lle unsigned_less [of "b - hd", where ?'a = nat] by (simp add: word_le_nat_alt)
        have bd: "b - hd = L + d" by (simp add: d_def)
        have cb: "code_bound TYPE('a) bs < unat L" by (simp add: uL L0_def)
        have sh: "encode_block bs perm bwhb (b - hd) maxprec iblock
                  = encode_block bs perm bwhb L maxprec iblock"
          unfolding bd by (rule encode_block_shift [OF hr(2) cb nwd])
        have le': "unat L \<le> unat (B - hd)"
          using hB u ug by (simp add: unat_sub word_le_nat_alt uL)
        from encode_block_rel [OF hr(2) within_budget_ran [OF w2 hb2 [unfolded bw0B_def]] le',
            of bs perm maxprec iblock]
        obtain o1 o2 r1 r2 where
          o: "ran bwhb L o1 (encode_block bs perm bwhb L maxprec iblock) r1"
             "ran bwhB (B - hd) o2 (encode_block bs perm bwhB (B - hd) maxprec iblock) r2"
             "prefix o1 o2"
          by auto
        show ?thesis
          using o(3) unfolding sh
          by (simp add: emitted_ran [OF ran_trans [OF hr(1) o(1)]] emitted_ran [OF ran_trans [OF hb2 o(2)]]
              bw0b_def bw0B_def emitted_new)
      qed
      show ?thesis using main by (simp add: rb rB)
    qed
  qed
qed

subsection \<open>The exponent of a float\<close>

lemma bit_length_bounds:
  "0 < n \<Longrightarrow> 2 ^ (bit_length n - 1) \<le> n \<and> n < 2 ^ bit_length n"
proof (induction n rule: bit_length.induct)
  case (1 n)
  show ?case
  proof (cases "n div 2 = 0")
    case True
    with "1.prems" have "n = Suc 0" by auto
    then show ?thesis by (simp add: bit_length.simps [of "Suc 0"] bit_length.simps [of 0])
  next
    case False
    then have h: "0 < n div 2" by simp
    from "1.prems" have n0: "n \<noteq> 0" by simp
    from "1.IH" [OF n0 h] have ih: "2 ^ (bit_length (n div 2) - 1) \<le> n div 2" "n div 2 < 2 ^ bit_length (n div 2)"
      by simp_all
    have bl: "bit_length n = Suc (bit_length (n div 2))" using n0 by (simp add: bit_length.simps [of n])
    have pos: "0 < bit_length (n div 2)" using h by (simp add: bit_length.simps [of "n div 2"])
    then obtain l where l: "bit_length (n div 2) = Suc l" by (cases "bit_length (n div 2)") auto
    have "2 * 2 ^ l \<le> 2 * (n div 2)" using ih(1) l by simp
    also have "\<dots> \<le> n" by simp
    finally have lo: "2 ^ (bit_length n - 1) \<le> n" by (simp add: bl l)
    have "n < 2 * (n div 2) + 2" by arith
    also have "\<dots> \<le> 2 * 2 ^ bit_length (n div 2)" using ih(2) by simp
    finally have "n < 2 ^ bit_length n" by (simp add: bl)
    with lo show ?thesis by simp
  qed
qed

lemma bit_length_le: "n < 2 ^ k \<Longrightarrow> bit_length n \<le> k"
proof (cases "n = 0")
  case True
  then show ?thesis by (simp add: bit_length.simps [of 0])
next
  case False
  assume a: "n < 2 ^ k"
  from False have "2 ^ (bit_length n - 1) \<le> n" using bit_length_bounds [of n] by simp
  from this a have "(2 :: nat) ^ (bit_length n - 1) < 2 ^ k" by (rule le_less_trans)
  then have "bit_length n - 1 < k" by simp
  then show ?thesis by simp
qed

lemma positive_fields:
  assumes "fp_less kind fp_zero x"
  shows "\<not> sign_bit x" and "0 < significand kind x"
proof -
  from assms have k: "0 < fp_key kind x" by (simp add: fp_less_def fp_key_def fp_zero_def)
  show s: "\<not> sign_bit x"
  proof
    assume "sign_bit x"
    then have "fp_key kind x = - (int (exp_field x) * 2 ^ frac_bits kind + int (frac_field x))"
      by (simp add: fp_key_def)
    moreover have "0 \<le> int (exp_field x) * 2 ^ frac_bits kind + int (frac_field x)" by simp
    ultimately show False using k by linarith
  qed
  show "0 < significand kind x"
  proof (cases "exp_field x = 0")
    case True
    with k s show ?thesis by (simp add: fp_key_def significand_def)
  next
    case False
    then show ?thesis by (simp add: significand_def)
  qed
qed

lemma frexp_mantissa:
  assumes "fp_less kind fp_zero x"
  shows "1 / 2 \<le> valof kind x / 2 powi frexp_exp kind x"
    and "valof kind x / 2 powi frexp_exp kind x < 1"
proof -
  define s where "s = significand kind x"
  define l where "l = bit_length s"
  define q where "q = scale_exp kind x"
  note pf = positive_fields [OF assms]
  have s0: "0 < s" using pf(2) by (simp add: s_def)
  from bit_length_bounds [OF s0] have b: "2 ^ (l - 1) \<le> s" "s < 2 ^ l" by (simp_all add: l_def)
  have l0: "0 < l" using s0 by (simp add: l_def bit_length.simps [of s])
  have v: "valof kind x = real s * 2 powi q" using pf(1) by (simp add: valof_def s_def q_def)
  have "valof kind x / 2 powi frexp_exp kind x = real s * 2 powi q / 2 powi (int l + q)"
    by (simp add: v frexp_exp_def s_def l_def q_def)
  also have "\<dots> = real s / 2 ^ l"
    by (simp add: power_int_add)
  finally have r: "valof kind x / 2 powi frexp_exp kind x = real s / 2 ^ l" .
  have "real s < 2 ^ l" using b(2) by (metis of_nat_less_iff of_nat_numeral of_nat_power)
  then show "valof kind x / 2 powi frexp_exp kind x < 1" unfolding r by simp
  have "(2 :: real) ^ l = 2 * 2 ^ (l - 1)" using l0 by (cases l) simp_all
  moreover have "(2 :: real) ^ (l - 1) \<le> real s" using b(1) by (metis of_nat_le_iff of_nat_numeral of_nat_power)
  ultimately show "1 / 2 \<le> valof kind x / 2 powi frexp_exp kind x" unfolding r
    by (simp add: field_simps)
qed

lemma frexp_exp_range:
  assumes "is_finite kind x"
  shows "- 2000 \<le> frexp_exp kind x" and "frexp_exp kind x \<le> 2000"
proof -
  have f: "frac_field x < 2 ^ frac_bits kind" and e: "exp_field x < exp_ones kind"
    using assms by (simp_all add: is_finite_def)
  have "significand kind x < 2 ^ (frac_bits kind + 1)"
    using f by (simp add: significand_def)
  then have bl: "bit_length (significand kind x) \<le> frac_bits kind + 1" by (rule bit_length_le)
  show "- 2000 \<le> frexp_exp kind x" "frexp_exp kind x \<le> 2000"
    using bl e by (cases kind; simp add: frexp_exp_def scale_exp_def)+
qed

lemma sint_MAX_int: "sint (MAX_int a b) = max (sint a) (sint b)"
  by (simp add: MAX_int_def word_sless_alt max_def)

lemma exponent_value:
  assumes "fp_less kind fp_zero x" and "is_finite kind x"
  shows "\<exists>r. exponent kind x = Some r
           \<and> sint r = max (frexp_exp kind x) (1 - sint (get_ebias kind))"
proof -
  note r = frexp_exp_range [OF assms(2)]
  have "sint (word_of_int (frexp_exp kind x) :: cint) = frexp_exp kind x"
    using r by (simp add: sint_sbintrunc' signed_take_bit_int_eq_self)
  moreover have "sint (1 - get_ebias kind) = 1 - sint (get_ebias kind)"
    by (cases kind) simp_all
  ultimately show ?thesis
    using assms by (simp add: exponent_def sint_MAX_int)
qed

subsection \<open>The block of four 1.0\<close>

lemma upt4: "[0..<4] = [0, 1, 2, 3]"
  by (simp add: upt_rec)

lemma bit_length_numeral:
  "bit_length (numeral (Num.Bit0 k)) = Suc (bit_length (numeral k))"
  "bit_length (numeral (Num.Bit1 k)) = Suc (bit_length (numeral k))"
  "bit_length (Suc 0) = Suc 0"
  by (simp_all add: bit_length.simps [of "numeral (Num.Bit0 k)"]
      bit_length.simps [of "numeral (Num.Bit1 k)"] bit_length.simps [of "Suc 0"] bit_length.simps [of 0])

lemma one_double_exponent: "exponent Float64 one_double = Some 1"
  by (simp add: exponent_def is_nan_def is_finite_def fp_less_def fp_key_def fp_zero_def
      one_double_def frexp_exp_def significand_def scale_exp_def MAX_int_def word_sless_alt
      bit_length_numeral)

lemma ones_block_emax: "max_exponent Float64 BS4 ones_block = Some 1"
  by (simp add: max_exponent_def upt4 exponent_def fp_max_def fabs_def is_nan_def is_finite_def
      fp_less_def fp_key_def fp_zero_def one_double_def ones_block_def frexp_exp_def
      significand_def scale_exp_def MAX_int_def word_sless_alt bit_length_numeral)

lemma ones_block_cast:
  "fwd_cast conv Float64 BS4 ones_block 1
   = [0x2000000000000000, 0x2000000000000000, 0x2000000000000000, 0x2000000000000000 :: 64 word]"
  by (simp add: fwd_cast_def quantize_factor_def cast_scaled_def upt4 is_finite_def is_nan_def
      one_double_def ones_block_def significand_def scale_exp_def Let_def)

lemma ones_block_ublock:
  "fwd_order [0, 1, 2, 3] BS4 (fwd_xform BS4
     [0x2000000000000000, 0x2000000000000000, 0x2000000000000000, 0x2000000000000000 :: 64 word])
   = [0x6000000000000000, 0, 0, 0]"
  by (simp add: fwd_order_def fwd_lift_def fwd_lift4_def upt4 Let_def int2uint_64)

lemma ones_block_driver:
  "zfp_encode_block_double (- 1074) BS4 [0, 1, 2, 3] ones_block mb idx s
   = Some (fst (encode_planes 4 0 [0x6000000000000000, 0, 0, 0 :: 64 word]
                 (fst (write_bits (BlockWriter_new s mb idx) 2049 12), mb - 12, 64, 0)))"
  by (simp add: zfp_encode_block_double_def zfp_encode_block_def ones_block_emax ones_block_cast
      encode_block_def ones_block_ublock Let_def precision_def MIN_int_def MAX_int_def word_sless_alt
      del: One_nat_def fwd_xform.simps)

lemma ones_planes_32:
  "(case encode_planes 4 0 [0x6000000000000000, 0, 0, 0 :: 64 word]
      (fst (write_bits (BlockWriter_new zero_stream 32 0) 2049 12), 32 - 12, 64, 0) of
      (bw, bits, n) \<Rightarrow> (m_current_bit bw, m_stream bw 0)) = (32, 92161)"
  by code_simp

lemma ones_planes_8:
  "(case encode_planes 4 0 [0x6000000000000000, 0, 0, 0 :: 64 word]
      (fst (write_bits (BlockWriter_new zero_stream 8 0) 2049 12), 8 - 12, 64, 0) of
      (bw, bits, n) \<Rightarrow> (m_current_bit bw, m_stream bw 0)) = (140, 92161)"
  by code_simp

lemma ones_planes_0:
  "(case encode_planes 4 0 [0x6000000000000000, 0, 0, 0 :: 64 word]
      (fst (write_bits (BlockWriter_new zero_stream 0 0) 2049 12), 0 - 12, 64, 0) of
      (bw, bits, n) \<Rightarrow> (m_current_bit bw, m_stream bw 0)) = (140, 92161)"
  by code_simp

lemma ones_32:
  "zfp_encode_block_double (- 1074) BS4 [0, 1, 2, 3] ones_block 32 0 zero_stream \<noteq> None"
  "m_current_bit (the (zfp_encode_block_double (- 1074) BS4 [0, 1, 2, 3] ones_block 32 0 zero_stream)) = 32"
  "m_stream (the (zfp_encode_block_double (- 1074) BS4 [0, 1, 2, 3] ones_block 32 0 zero_stream)) 0 = 92161"
  using ones_planes_32 by (simp_all add: ones_block_driver case_prod_beta del: One_nat_def)

lemma ones_8:
  "zfp_encode_block_double (- 1074) BS4 [0, 1, 2, 3] ones_block 8 0 zero_stream \<noteq> None"
  "m_current_bit (the (zfp_encode_block_double (- 1074) BS4 [0, 1, 2, 3] ones_block 8 0 zero_stream)) = 140"
  "m_stream (the (zfp_encode_block_double (- 1074) BS4 [0, 1, 2, 3] ones_block 8 0 zero_stream)) 0 = 92161"
  using ones_planes_8 by (simp_all add: ones_block_driver case_prod_beta del: One_nat_def)

lemma ones_0:
  "zfp_encode_block_double (- 1074) BS4 [0, 1, 2, 3] ones_block 0 0 zero_stream \<noteq> None"
  "m_current_bit (the (zfp_encode_block_double (- 1074) BS4 [0, 1, 2, 3] ones_block 0 0 zero_stream)) = 140"
  "m_stream (the (zfp_encode_block_double (- 1074) BS4 [0, 1, 2, 3] ones_block 0 0 zero_stream)) 0 = 92161"
  using ones_planes_0 by (simp_all add: ones_block_driver case_prod_beta del: One_nat_def)

subsection \<open>The budget invariant of the loops\<close>

lemma within_budget_current:
  assumes "within_budget B bw bits"
  shows "unat (m_current_bit bw) \<le> B"
  using assms by (simp add: within_budget_def)

lemma write_bit_within_budget:
  assumes "within_budget B bw bits" "bits \<noteq> 0" "c = 0 \<or> c = 1"
  shows "within_budget B (fst (write_bit bw c)) (bits - 1)"
  by (rule within_budget_ran [OF assms(1) write_bit_ran [OF assms]])

lemma write_bits_within_budget:
  assumes "within_budget B bw bits" "unat n \<le> 64"
  shows "within_budget B (fst (write_bits bw v (min n bits))) (bits - min n bits)"
  by (rule within_budget_ran [OF assms(1) write_bits_ran [OF assms]])

lemma header_within_budget:
  assumes "within_budget B bw mb" "unat (get_ebits kind + 1) \<le> unat mb"
  shows "within_budget B (fst (write_bits bw v (get_ebits kind + 1))) (mb - (get_ebits kind + 1))"
  by (rule within_budget_ran [OF assms(1) header_ran [OF assms]])

lemma encode_unary_within_budget:
  assumes wb: "within_budget B bw bits" and b: "0 < bsize" "bsize \<le> 64"
  shows "within_budget B (fst (encode_unary bsize (bw, bits, x, n)))
           (fst (snd (encode_unary bsize (bw, bits, x, n))))"
proof -
  obtain bw' bits' x' n' where e: "encode_unary bsize (bw, bits, x, n) = (bw', bits', x', n')"
    by (metis prod_cases4)
  from encode_unary_ran [OF e wb b] obtain out where "ran bw bits out bw' bits'"
    by blast
  from within_budget_ran [OF wb this] show ?thesis
    by (simp add: e)
qed

lemma encode_group_within_budget:
  assumes wb: "within_budget B bw bits" and b: "0 < bsize" "bsize \<le> 64" "unat n \<le> bsize"
  shows "within_budget B (fst (encode_group bsize (bw, bits, x, n)))
           (fst (snd (encode_group bsize (bw, bits, x, n))))"
proof -
  obtain bw' bits' x' n' where e: "encode_group bsize (bw, bits, x, n) = (bw', bits', x', n')"
    by (metis prod_cases4)
  from encode_group_ran [OF e wb b] obtain out where "ran bw bits out bw' bits'"
    by blast
  from within_budget_ran [OF wb this] show ?thesis
    by (simp add: e)
qed

lemma encode_planes_within_budget:
  assumes wb: "within_budget B bw bits" and b: "0 < bsize" "bsize \<le> 64" "unat n \<le> bsize"
  shows "within_budget B (fst (encode_planes bsize kmin ublock (bw, bits, k, n)))
           (fst (snd (encode_planes bsize kmin ublock (bw, bits, k, n))))"
proof -
  obtain bw' bits' n' where e: "encode_planes bsize kmin ublock (bw, bits, k, n) = (bw', bits', n')"
    by (metis prod_cases3)
  from encode_planes_ran [OF e wb b] obtain out where "ran bw bits out bw' bits'"
    by blast
  from within_budget_ran [OF wb this] show ?thesis
    by (simp add: e)
qed

lemma int_driver_zero_budget:
  fixes iblock :: "'a::len word list"
  shows "zfp_encode_block_int bs perm iblock 0 block_idx stream = BlockWriter_new stream 0 block_idx"
  by (simp add: zfp_encode_block_int_def encode_block_def Let_def encode_planes_stop)

lemma new_writer_fields:
  "m_stream (BlockWriter_new stream maxbits block_idx) = stream"
  "m_current_bit (BlockWriter_new stream maxbits block_idx) = 0"
  by (simp_all add: BlockWriter_new_def)

lemma zero_block_fp_zero: "zero_block BS4 [fp_zero, fp_zero, fp_zero, fp_zero]"
proof -
  have "[fp_zero, fp_zero, fp_zero, fp_zero] ! i = fp_zero" if "i < 4" for i
    using nth_mem [of i "[fp_zero, fp_zero, fp_zero, fp_zero]"] that by simp
  then show ?thesis
    by (simp add: zero_block_def fp_zero_def)
qed

lemma one_double_positive:
  "fp_less Float64 fp_zero one_double" "is_finite Float64 one_double"
  by (simp_all add: fp_less_def is_nan_def is_finite_def fp_zero_def one_double_def fp_key_def)

lemma one_double_value: "valof Float64 one_double = 1"
  by (simp add: valof_def one_double_def significand_def scale_exp_def power_int_minus)

lemma one_double_frexp: "frexp_exp Float64 one_double = 1"
  using one_double_exponent
  by (simp add: frexp_exp_def one_double_def significand_def scale_exp_def bit_length_numeral)

subsection \<open>The drivers on finite blocks\<close>

lemma float_driver_in_block_total:
  assumes nw: "unat block_idx * unat maxbits + unat maxbits < 2 ^ 32"
    and z: "\<forall>j. unat block_idx * unat maxbits \<le> j \<and> j < unat block_idx * unat maxbits + unat maxbits
              \<longrightarrow> \<not> gbit stream j"
    and h: "finite_block kind bs fblock \<and> unat (get_ebits kind + 1) \<le> unat maxbits
            \<or> zero_block bs fblock"
  shows "\<exists>bw. zfp_encode_block conv kind me bs perm fblock maxbits block_idx stream = Some bw
           \<and> stays_in_block stream maxbits block_idx bw"
proof -
  from h have "finite_block kind bs fblock"
    by (auto intro: zero_block_finite)
  then obtain bw where r: "zfp_encode_block conv kind me bs perm fblock maxbits block_idx stream = Some bw"
    using float_driver_total by blast
  from h have "unat (get_ebits kind + 1) \<le> unat maxbits \<or> zero_block bs fblock"
    by blast
  from float_driver_in_block [OF nw z this r] r show ?thesis
    by blast
qed

lemma float_driver_prefix_total:
  assumes le: "unat b \<le> unat B" and nw: "unat block_idx * unat B + unat B < 2 ^ 32"
    and h: "unat (get_ebits kind + 1) \<le> unat b
            \<or> (unlimited TYPE('a) bs \<le> unat B
                \<and> unat block_idx * unat b + unlimited TYPE('a) bs < 2 ^ 32)"
    and f: "finite_block kind bs fblock"
  shows "\<exists>bw1 bw2.
           zfp_encode_block (conv :: undefined_cast \<Rightarrow> 'a::len word) kind me bs perm fblock b block_idx zero_stream
             = Some bw1
         \<and> zfp_encode_block conv kind me bs perm fblock B block_idx zero_stream = Some bw2
         \<and> prefix (emitted bw1) (emitted bw2)"
proof -
  obtain bw1 where r1: "zfp_encode_block conv kind me bs perm fblock b block_idx zero_stream = Some bw1"
    using float_driver_total [OF f] by blast
  obtain bw2 where r2: "zfp_encode_block conv kind me bs perm fblock B block_idx zero_stream = Some bw2"
    using float_driver_total [OF f] by blast
  from float_driver_prefix [OF le nw h, of conv me perm fblock] show ?thesis
    unfolding r1 r2 by simp
qed

lemma tiny_block_finite: "finite_block Float64 BS4 tiny_block"
proof -
  have "is_finite Float64 x" if "x \<in> set tiny_block" for x
    using that by (auto simp: tiny_block_def tiny_double_def fp_zero_def is_finite_def)
  moreover have "tiny_block ! i \<in> set tiny_block" if "i < 4" for i
    using that by (intro nth_mem) (simp add: tiny_block_def)
  ultimately show ?thesis
    by (simp add: finite_block_def)
qed

subsection \<open>The block \<open>{1e-300, 0, 0, 0}\<close>\<close>

lemma tiny_double_exponent: "exponent Float64 tiny_double = Some (- 996)"
  by (simp add: exponent_def is_nan_def is_finite_def fp_less_def fp_key_def fp_zero_def
      tiny_double_def frexp_exp_def significand_def scale_exp_def MAX_int_def word_sless_alt
      bit_length_numeral)

lemma tiny_block_emax: "max_exponent Float64 BS4 tiny_block = Some (- 996)"
  by (simp add: max_exponent_def upt4 exponent_def fp_max_def fabs_def is_nan_def is_finite_def
      fp_less_def fp_key_def fp_zero_def tiny_double_def tiny_block_def frexp_exp_def
      significand_def scale_exp_def MAX_int_def word_sless_alt bit_length_numeral)

lemma tiny_block_factor: "quantize_factor Float64 (- 996) = Factor_infinity"
  by (simp add: quantize_factor_def)

lemma tiny_block_cast:
  "fwd_cast saturate Float64 BS4 tiny_block (- 996)
   = [0x7FFFFFFFFFFFFFFF, 0, 0, 0 :: 64 word]"
  by (simp add: fwd_cast_def tiny_block_factor cast_scaled_def upt4 is_finite_def is_nan_def
      tiny_double_def fp_zero_def tiny_block_def significand_def out_of_range_def Let_def)

lemma tiny_block_ublock:
  "fwd_order [0, 1, 2, 3] BS4 (fwd_xform BS4 [0x7FFFFFFFFFFFFFFF, 0, 0, 0 :: 64 word])
   = [0x6000000000000003, 0x7800000000000000, 0x2000000000000001, 0x3000000000000000]"
  by (simp add: fwd_order_def fwd_lift_def fwd_lift4_def upt4 Let_def int2uint_64)

lemma tiny_block_driver:
  "zfp_encode_block_double (- 1074) BS4 [0, 1, 2, 3] tiny_block mb idx s
   = Some (fst (encode_planes 4 0
        [0x6000000000000003, 0x7800000000000000, 0x2000000000000001, 0x3000000000000000 :: 64 word]
        (fst (write_bits (BlockWriter_new s mb idx) 55 12), mb - 12, 64, 0)))"
  by (simp add: zfp_encode_block_double_def zfp_encode_block_def tiny_block_emax tiny_block_cast
      encode_block_def tiny_block_ublock Let_def precision_def MIN_int_def MAX_int_def word_sless_alt
      del: One_nat_def fwd_xform.simps)

lemma tiny_planes_32:
  "(case encode_planes 4 0
      [0x6000000000000003, 0x7800000000000000, 0x2000000000000001, 0x3000000000000000 :: 64 word]
      (fst (write_bits (BlockWriter_new zero_stream 32 0) 55 12), 32 - 12, 64, 0) of
      (bw, bits, n) \<Rightarrow> (m_current_bit bw, m_stream bw 0)) = (32, 360570935)"
  by code_simp

lemma tiny_32:
  "zfp_encode_block_double (- 1074) BS4 [0, 1, 2, 3] tiny_block 32 0 zero_stream \<noteq> None"
  "m_current_bit (the (zfp_encode_block_double (- 1074) BS4 [0, 1, 2, 3] tiny_block 32 0 zero_stream)) = 32"
  "m_stream (the (zfp_encode_block_double (- 1074) BS4 [0, 1, 2, 3] tiny_block 32 0 zero_stream)) 0 = 360570935"
  using tiny_planes_32 by (simp_all add: tiny_block_driver case_prod_beta del: One_nat_def)

text \<open>The same block with the conversion of an x86 host.\<close>

lemma tiny_block_cast_host:
  "fwd_cast indefinite Float64 BS4 tiny_block (- 996)
   = [0x8000000000000000, 0x8000000000000000, 0x8000000000000000, 0x8000000000000000 :: 64 word]"
  by (simp add: fwd_cast_def tiny_block_factor cast_scaled_def upt4 is_finite_def is_nan_def
      tiny_double_def fp_zero_def tiny_block_def significand_def out_of_range_def indefinite_def
      Let_def)

lemma tiny_block_ublock_host:
  "fwd_order [0, 1, 2, 3] BS4 (fwd_xform BS4
     [0x8000000000000000, 0x8000000000000000, 0x8000000000000000, 0x8000000000000000 :: 64 word])
   = [0, 0xE000000000000000, 0, 0xC000000000000000]"
  by (simp add: fwd_order_def fwd_lift_def fwd_lift4_def upt4 Let_def int2uint_64)

lemma tiny_block_driver_host:
  "zfp_encode_block (indefinite :: undefined_cast \<Rightarrow> 64 word) Float64 (- 1074) BS4 [0, 1, 2, 3]
     tiny_block mb idx s
   = Some (fst (encode_planes 4 0 [0, 0xE000000000000000, 0, 0xC000000000000000 :: 64 word]
        (fst (write_bits (BlockWriter_new s mb idx) 55 12), mb - 12, 64, 0)))"
  by (simp add: zfp_encode_block_def tiny_block_emax tiny_block_cast_host
      encode_block_def tiny_block_ublock_host Let_def precision_def MIN_int_def MAX_int_def
      word_sless_alt del: One_nat_def fwd_xform.simps)

lemma tiny_planes_32_host:
  "(case encode_planes 4 0 [0, 0xE000000000000000, 0, 0xC000000000000000 :: 64 word]
      (fst (write_bits (BlockWriter_new zero_stream 32 0) 55 12), 32 - 12, 64, 0) of
      (bw, bits, n) \<Rightarrow> (m_current_bit bw, m_stream bw 0)) = (32, 5558327)"
  by code_simp

lemma tiny_32_host:
  "m_current_bit (the (zfp_encode_block (indefinite :: undefined_cast \<Rightarrow> 64 word) Float64 (- 1074) BS4
     [0, 1, 2, 3] tiny_block 32 0 zero_stream)) = 32"
  "m_stream (the (zfp_encode_block (indefinite :: undefined_cast \<Rightarrow> 64 word) Float64 (- 1074) BS4
     [0, 1, 2, 3] tiny_block 32 0 zero_stream)) 0 = 5558327"
  using tiny_planes_32_host by (simp_all add: tiny_block_driver_host case_prod_beta del: One_nat_def)

section \<open>Negabinary map (C6)\<close>

text \<open>
  C6, as stated, fails: applying \<open>(x + M) XOR M\<close> twice to \<open>-1\<close> (32 bits) gives 7, not
  \<open>-1\<close>.
\<close>

theorem int2uint_twice_counterexample:
  "int2uint (int2uint (- 1 :: 32 word)) \<noteq> - 1"
  by (simp add: int2uint_32)

text \<open>
  C6, amended: \<open>int2uint\<close> is undone by \<open>y \<mapsto> (y XOR M) - M\<close>, with the same mask \<open>M\<close>, for
  every word \<open>x\<close> of either width (so for 0, 1, \<open>-1\<close>, \<open>INT_MIN\<close> and \<open>INT_MAX\<close>); the inverse
  is not the formula of \<open>int2uint\<close> itself.
\<close>

theorem int2uint_inverse:
  "(int2uint x XOR nbmask) - nbmask = x"
  by (simp only: int2uint_def xor_cancel_right add_diff_cancel_right')

section \<open>Lifting transform (C5)\<close>

text \<open>
  C5, as stated, fails: \<^verbatim>\<open>fwd_lift\<close> sends \<open>(1, 0, 0, 0)\<close> and \<open>(0, 0, 0, 0)\<close> to the same
  vector, so it is not injective and the inverse of the spec does not return
  \<open>(1, 0, 0, 0)\<close>.
\<close>

theorem fwd_lift_not_injective:
  "fwd_lift4 (1, 0, 0, 0 :: 32 word) = fwd_lift4 (0, 0, 0, 0)
   \<and> inv_lift4_spec (fwd_lift4 (1, 0, 0, 0 :: 32 word)) \<noteq> (1, 0, 0, 0)"
  by (simp add: fwd_lift4_def inv_lift4_spec_def Let_def)

text \<open>
  C5, amended: the inverse obtained by undoing each step in reverse order returns \<open>v\<close>
  from \<open>fwd_lift v\<close> for every 4-vector \<open>v\<close> of fixed-width integers for which the four
  sums that \<^verbatim>\<open>fwd_lift\<close> halves are even; arithmetic wraps.
\<close>

theorem inv_fwd_lift_exact:
  fixes v :: "'a::len word \<times> 'a word \<times> 'a word \<times> 'a word"
  assumes "\<forall>s \<in> set (lift_sums v). \<not> bit s 0"
  shows "inv_lift4_spec (fwd_lift4 v) = v"
proof -
  obtain x y z w where v: "v = (x, y, z, w)" by (cases v) auto
  define x1 where "x1 = signed_drop_bit 1 (x + w)"
  define w1 where "w1 = w - x1"
  define z1 where "z1 = signed_drop_bit 1 (z + y)"
  define y1 where "y1 = y - z1"
  define x2 where "x2 = signed_drop_bit 1 (x1 + z1)"
  define z2 where "z2 = z1 - x2"
  define w2 where "w2 = signed_drop_bit 1 (w1 + y1)"
  define y2 where "y2 = y1 - w2"
  define w3 where "w3 = w2 + signed_drop_bit 1 y2"
  define y3 where "y3 = y2 - signed_drop_bit 1 w3"
  have ev: "\<not> bit (x + w) 0" "\<not> bit (z + y) 0" "\<not> bit (x1 + z1) 0" "\<not> bit (w1 + y1) 0"
    using assms by (simp_all add: v lift_sums_def Let_def x1_def w1_def z1_def y1_def)
  have f: "fwd_lift4 v = (x2, y3, z2, w3)"
    by (simp add: v fwd_lift4_def Let_def x1_def w1_def z1_def y1_def x2_def z2_def w2_def
        y2_def w3_def y3_def)
  have d: "push_bit 1 x1 = x + w" "push_bit 1 z1 = z + y" "push_bit 1 x2 = x1 + z1"
    "push_bit 1 w2 = w1 + y1"
    using ev(1) [THEN signed_halve_double] ev(2) [THEN signed_halve_double]
      ev(3) [THEN signed_halve_double] ev(4) [THEN signed_halve_double]
    by (simp_all only: x1_def [symmetric] z1_def [symmetric] x2_def [symmetric] w2_def [symmetric])
  have a1: "y3 + signed_drop_bit 1 w3 = y2" by (simp add: y3_def)
  have a2: "w3 - signed_drop_bit 1 y2 = w2" by (simp add: w3_def)
  have a3: "y2 + w2 = y1" by (simp add: y2_def)
  have a4: "push_bit 1 w2 - y1 = w1" using d(4) by simp
  have a5: "z2 + x2 = z1" by (simp add: z2_def)
  have a6: "push_bit 1 x2 - z1 = x1" using d(3) by simp
  have a7: "y1 + z1 = y" by (simp add: y1_def)
  have a8: "push_bit 1 z1 - y = z" using d(2) by simp
  have a9: "w1 + x1 = w" by (simp add: w1_def)
  have a10: "push_bit 1 x1 - w = x" using d(1) by simp
  have "inv_lift4_spec (x2, y3, z2, w3) = (x, y, z, w)"
    unfolding inv_lift4_spec_def Let_def prod.case
    by (simp only: a1 a2 a3 a4 a5 a6 a7 a8 a9 a10)
  then show ?thesis unfolding f unfolding v .
qed

theorem inv_fwd_lift_exact_witness:
  "lift_sums (4, 8, 12, 16 :: 32 word) = [20, 20, 20, 4]
   \<and> inv_lift4_spec (fwd_lift4 (4, 8, 12, 16 :: 32 word)) = (4, 8, 12, 16)"
proof -
  have s: "lift_sums (4, 8, 12, 16 :: 32 word) = [20, 20, 20, 4]"
    by (simp add: lift_sums_def Let_def)
  have h: "\<forall>s \<in> set (lift_sums (4, 8, 12, 16 :: 32 word)). \<not> bit s 0"
    unfolding s by simp
  show ?thesis using s inv_fwd_lift_exact [OF h] by simp
qed

section \<open>Padding (C10)\<close>

text \<open>
  C10, as stated, fails for a stride whose multiples wrap: with \<open>s = 2^31\<close> the offset
  \<^verbatim>\<open>2 * s\<close> is 0, and \<^verbatim>\<open>pad_block(p, 2, s)\<close> overwrites \<^verbatim>\<open>p[0]\<close>, which the claim says is
  left unchanged.
\<close>

theorem pad_block_stride_wraps:
  "pad_block pad_example 2 0x80000000 (0 * unat (0x80000000 :: uint))
   \<noteq> pad_example (0 * unat (0x80000000 :: uint))"
  by (simp add: pad_block_def Let_def pad_example_def word_le_nat_alt)

text \<open>
  C10, amended: for every array \<open>p\<close>, every count \<open>n \<le> 3\<close> and every stride \<open>s\<close> with
  \<open>3 * s < 2^32\<close> (the strided offsets do not wrap), \<^verbatim>\<open>pad_block(p, n, s)\<close> leaves
  \<open>p[i * s]\<close> unchanged for \<open>i < n\<close>; with \<open>n = 0\<close> all four strided entries become 0;
  afterwards \<open>p[3 * s] = p[0 * s]\<close>, and \<open>p[1 * s] = p[0 * s]\<close> when \<open>n \<le> 1\<close>, and
  \<open>p[2 * s] = p[1 * s]\<close> when \<open>n \<le> 2\<close>.
\<close>

theorem pad_block_strided:
  fixes p :: "nat \<Rightarrow> 'a::zero"
  assumes "3 * unat s < 2 ^ 32" and "n \<le> 3"
  shows "(\<forall>i. i < unat n \<longrightarrow> pad_block p n s (i * unat s) = p (i * unat s))
       \<and> (n = 0 \<longrightarrow> (\<forall>i<4. pad_block p n s (i * unat s) = 0))
       \<and> pad_block p n s (3 * unat s) = pad_block p n s (0 * unat s)
       \<and> (n \<le> 1 \<longrightarrow> pad_block p n s (1 * unat s) = pad_block p n s (0 * unat s))
       \<and> (n \<le> 2 \<longrightarrow> pad_block p n s (2 * unat s) = pad_block p n s (1 * unat s))"
proof -
  note m = unat_small_mult [OF assms(1)]
  have lt4: "i = 0 \<or> i = 1 \<or> i = 2 \<or> i = 3" if "i < 4" for i :: nat using that by arith
  have lt3: "i = 0 \<or> i = 1 \<or> i = 2" if "i < 3" for i :: nat using that by arith
  have lt2: "i = 0 \<or> i = 1" if "i < 2" for i :: nat using that by arith
  from uint_le_3_cases [OF assms(2)] show ?thesis
  proof (elim disjE)
    assume "n = 0"
    then show ?thesis by (auto simp: pad_block_def Let_def m word_le_nat_alt dest!: lt4)
  next
    assume "n = 1"
    then show ?thesis by (auto simp: pad_block_def Let_def m word_le_nat_alt)
  next
    assume "n = 2"
    then show ?thesis by (auto simp: pad_block_def Let_def m word_le_nat_alt dest!: lt2)
  next
    assume "n = 3"
    then show ?thesis by (auto simp: pad_block_def Let_def m word_le_nat_alt dest!: lt3)
  qed
qed

theorem pad_block_strided_witness:
  "3 * unat (5 :: uint) < 2 ^ 32 \<and> (2 :: uint) \<le> 3
   \<and> pad_block pad_example 2 5 (0 * unat (5 :: uint)) = pad_example (0 * unat (5 :: uint))
   \<and> pad_block pad_example 2 5 (1 * unat (5 :: uint)) = pad_example (1 * unat (5 :: uint))
   \<and> pad_block pad_example 2 5 (3 * unat (5 :: uint))
       = pad_block pad_example 2 5 (0 * unat (5 :: uint))
   \<and> pad_block pad_example 2 5 (2 * unat (5 :: uint))
       = pad_block pad_example 2 5 (1 * unat (5 :: uint))"
proof -
  have h1: "3 * unat (5 :: uint) < 2 ^ 32" by simp
  have h2: "(2 :: uint) \<le> 3" by (simp add: word_le_nat_alt)
  have h3: "(2 :: uint) \<le> 2" by simp
  have i0: "0 < unat (2 :: uint)" and i1: "1 < unat (2 :: uint)" by simp_all
  show ?thesis using h1 h2 h3 i0 i1 pad_block_strided [OF h1 h2, of pad_example] by blast
qed

section \<open>Number of bit planes (C3)\<close>



section \<open>Masking in \<^verbatim>\<open>write_bits\<close> (C9)\<close>

text \<open>
  C9: for every writer and every \<open>n < 64\<close>, two calls of \<^verbatim>\<open>write_bits\<close> whose values agree
  on the low \<open>n\<close> bits leave the same writer: the same stream words and the same
  \<^verbatim>\<open>m_current_bit\<close>, whatever the bits above bit \<open>n - 1\<close> are.
\<close>

theorem write_bits_low_bits:
  assumes "unat n < 64"
    and "take_bit (unat n) bits1 = take_bit (unat n) bits2"
  shows "fst (write_bits bw bits1 n) = fst (write_bits bw bits2 n)"
  using assms(2) by (simp add: write_bits_def Let_def low_bits_sub)

theorem write_bits_low_bits_witness:
  "unat (3 :: uint) < 64
   \<and> take_bit (unat (3 :: uint)) (0xFD :: uint64) = take_bit (unat (3 :: uint)) 5
   \<and> fst (write_bits writer_example 0xFD 3) = fst (write_bits writer_example 5 3)"
proof -
  have h1: "unat (3 :: uint) < 64" by simp
  have h2: "take_bit (unat (3 :: uint)) (0xFD :: uint64) = take_bit (unat (3 :: uint)) 5"
    by (simp add: take_bit_eq_mod)
  show ?thesis using h1 h2 write_bits_low_bits [OF h1 h2] by blast
qed

section \<open>All-zero blocks (C7)\<close>

text \<open>
  C7: for every floating-point block whose \<^verbatim>\<open>BlockSize\<close> values are all zero (of either
  sign), of either scalar kind, every block size, every \<^verbatim>\<open>maxbits\<close> and every block
  index, the driver returns with the stream as it was and \<^verbatim>\<open>m_current_bit = 0\<close>: neither
  header nor bit-plane bits are written.
\<close>

theorem zero_block_writes_nothing:
  assumes "\<forall>i < BlockSize bs. exp_field (fblock ! i) = 0 \<and> frac_field (fblock ! i) = 0"
  shows "\<exists>bw. zfp_encode_block conv kind min_exp bs perm fblock maxbits block_idx stream = Some bw
          \<and> m_stream bw = stream \<and> m_current_bit bw = 0"
  by (simp add: zero_block_unwritten [OF assms] BlockWriter_new_def)

theorem zero_block_writes_nothing_witness:
  "\<exists>bw. zfp_encode_block_double (- 1074) BS4 [0, 1, 2, 3]
              [fp_zero, fp_zero, fp_zero, fp_zero] 32 0 (\<lambda>i. 0) = Some bw
          \<and> m_stream bw = (\<lambda>i. 0) \<and> m_current_bit bw = 0"
proof -
  have lt4: "i = 0 \<or> i = 1 \<or> i = 2 \<or> i = 3" if "i < 4" for i :: nat using that by arith
  have h: "\<forall>i < BlockSize BS4. exp_field ([fp_zero, fp_zero, fp_zero, fp_zero] ! i) = 0
       \<and> frac_field ([fp_zero, fp_zero, fp_zero, fp_zero] ! i) = 0"
    by (auto simp: fp_zero_def dest!: lt4)
  show ?thesis
    using zero_block_writes_nothing [OF h, of "saturate :: undefined_cast \<Rightarrow> 64 word" Float64 "- 1074"
        "[0, 1, 2, 3]" 32 0 "\<lambda>i. 0"]
    unfolding zfp_encode_block_double_def by blast
qed

section \<open>Block ranges (C1)\<close>

text \<open>
  C1 as stated fails for the floating-point driver: it writes the exponent
  header of \<open>ebits + 1\<close> bits whatever the budget is, and with
  \<open>maxbits < ebits + 1\<close> the budget \<^verbatim>\<open>maxbits - ebits\<close> it passes to
  \<^verbatim>\<open>encode_block\<close> is negative and is read as a huge \<^verbatim>\<open>uint\<close>.  The block of four
  doubles 1.0 encoded as block 0 with \<open>maxbits = 8\<close> into an empty stream ends
  with \<open>current_bit = 140\<close>, and bit 11 of the stream, outside \<open>[0, 8)\<close>, is set.
\<close>

theorem header_exceeds_budget:
  "zfp_encode_block_double (- 1074) BS4 [0, 1, 2, 3] ones_block 8 0 zero_stream \<noteq> None
   \<and> m_current_bit (the (zfp_encode_block_double (- 1074) BS4 [0, 1, 2, 3] ones_block 8 0 zero_stream)) = 140
   \<and> gbit (m_stream (the (zfp_encode_block_double (- 1074) BS4 [0, 1, 2, 3] ones_block 8 0 zero_stream))) 11
   \<and> \<not> gbit zero_stream 11
   \<and> \<not> stays_in_block zero_stream 8 0
         (the (zfp_encode_block_double (- 1074) BS4 [0, 1, 2, 3] ones_block 8 0 zero_stream))"
proof -
  let ?r = "zfp_encode_block_double (- 1074) BS4 [0, 1, 2, 3] ones_block 8 0 zero_stream"
  have c: "m_current_bit (the ?r) = 140" and s: "m_stream (the ?r) 0 = 92161"
    by (rule ones_8)+
  have "bit (92161 :: Word) 11" "(11 :: nat) div 64 = 0" "(11 :: nat) mod 64 = 11"
    by simp_all
  then have g: "gbit (m_stream (the ?r)) 11"
    unfolding gbit_def by (simp only: s)
  have n: "\<not> stays_in_block zero_stream 8 0 (the ?r)"
    unfolding stays_in_block_def c by simp
  from ones_8(1) c g n show ?thesis
    by (simp del: One_nat_def)
qed

text \<open>
  C1, amended.  Let \<open>(block_idx + 1) * maxbits < 2 ^ 32\<close>, so that the \<^verbatim>\<open>uint\<close>
  product \<^verbatim>\<open>block_idx * maxbits\<close> does not wrap, and let the bits
  \<open>[block_idx * maxbits, (block_idx + 1) * maxbits)\<close> of the stream be zero before
  the call.  Then every integer driver, and the floating-point driver on every
  block of finite values when \<open>ebits + 1 \<le> maxbits\<close> and on every block that is
  all zero, returns, changes no bit of the stream outside that range and ends
  with \<open>current_bit \<le> maxbits\<close>, whatever the platform stores for a conversion
  that C++ leaves undefined.  The same holds of every result the floating-point
  driver gives for a block with a NaN or an infinity; there is no result when
  the largest magnitude is an infinity, whose exponent \<^verbatim>\<open>frexp\<close> leaves unspecified.
  Moreover \<open>current_bit + bits \<le> maxbits\<close>, hence \<open>current_bit \<le> maxbits\<close>, is
  an invariant of the loops of \<^verbatim>\<open>encode_block\<close>: it holds for the new writer
  with \<open>bits = maxbits\<close>, after the header with \<open>bits = maxbits - (ebits + 1)\<close>,
  and every guarded \<^verbatim>\<open>write_bit\<close>, every \<^verbatim>\<open>write_bits\<close> of \<open>min(n, bits)\<close> bits
  and every run of the two inner loops and of the plane loop keeps it.
\<close>

theorem encoder_stays_in_block:
  fixes iblock :: "'a::len word list"
  assumes nw: "unat block_idx * unat maxbits + unat maxbits < 2 ^ 32"
    and z: "\<forall>j. unat block_idx * unat maxbits \<le> j \<and> j < unat block_idx * unat maxbits + unat maxbits
              \<longrightarrow> \<not> gbit stream j"
  shows "stays_in_block stream maxbits block_idx
           (zfp_encode_block_int bs perm iblock maxbits block_idx stream)
    \<and> (finite_block kind bs fblock \<and> unat (get_ebits kind + 1) \<le> unat maxbits
         \<or> zero_block bs fblock \<longrightarrow>
         (\<exists>bw. zfp_encode_block (conv :: undefined_cast \<Rightarrow> 'b::len word) kind min_exp bs perm fblock
                  maxbits block_idx stream = Some bw
              \<and> stays_in_block stream maxbits block_idx bw))
    \<and> (unat (get_ebits kind + 1) \<le> unat maxbits \<or> zero_block bs fblock \<longrightarrow>
         (\<forall>bw. zfp_encode_block conv kind min_exp bs perm fblock maxbits block_idx stream = Some bw
              \<longrightarrow> stays_in_block stream maxbits block_idx bw))
    \<and> within_budget (unat maxbits) (BlockWriter_new stream maxbits block_idx) maxbits
    \<and> (\<forall>bw v. within_budget (unat maxbits) bw maxbits \<and> unat (get_ebits kind + 1) \<le> unat maxbits \<longrightarrow>
         within_budget (unat maxbits) (fst (write_bits bw v (get_ebits kind + 1)))
           (maxbits - (get_ebits kind + 1)))
    \<and> (\<forall>bw bits. within_budget (unat maxbits) bw bits \<longrightarrow>
         unat (m_current_bit bw) + unat bits \<le> unat maxbits
         \<and> unat (m_current_bit bw) \<le> unat maxbits)
    \<and> (\<forall>bw bits c. within_budget (unat maxbits) bw bits \<and> bits \<noteq> 0 \<and> (c = 0 \<or> c = 1) \<longrightarrow>
         within_budget (unat maxbits) (fst (write_bit bw c)) (bits - 1))
    \<and> (\<forall>bw bits v n. within_budget (unat maxbits) bw bits \<and> unat n \<le> 64 \<longrightarrow>
         within_budget (unat maxbits) (fst (write_bits bw v (min n bits))) (bits - min n bits))
    \<and> (\<forall>bw bits x n. within_budget (unat maxbits) bw bits \<longrightarrow>
         within_budget (unat maxbits) (fst (encode_unary (BlockSize bs) (bw, bits, x, n)))
           (fst (snd (encode_unary (BlockSize bs) (bw, bits, x, n)))))
    \<and> (\<forall>bw bits x n. within_budget (unat maxbits) bw bits \<and> unat n \<le> BlockSize bs \<longrightarrow>
         within_budget (unat maxbits) (fst (encode_group (BlockSize bs) (bw, bits, x, n)))
           (fst (snd (encode_group (BlockSize bs) (bw, bits, x, n)))))
    \<and> (\<forall>bw bits k n kmin (ublock :: 'a word list).
         within_budget (unat maxbits) bw bits \<and> unat n \<le> BlockSize bs \<longrightarrow>
         within_budget (unat maxbits) (fst (encode_planes (BlockSize bs) kmin ublock (bw, bits, k, n)))
           (fst (snd (encode_planes (BlockSize bs) kmin ublock (bw, bits, k, n)))))"
proof -
  have bs: "0 < BlockSize bs" "BlockSize bs \<le> 64"
    using BlockSize_bounds [of bs] by simp_all
  have c1: "stays_in_block stream maxbits block_idx
              (zfp_encode_block_int bs perm iblock maxbits block_idx stream)"
    by (rule int_driver_in_block [OF nw z])
  have c2: "finite_block kind bs fblock \<and> unat (get_ebits kind + 1) \<le> unat maxbits
         \<or> zero_block bs fblock \<longrightarrow>
         (\<exists>bw. zfp_encode_block (conv :: undefined_cast \<Rightarrow> 'b::len word) kind min_exp bs perm fblock
                  maxbits block_idx stream = Some bw
              \<and> stays_in_block stream maxbits block_idx bw)"
    by (intro impI float_driver_in_block_total [OF nw z])
  have c2': "unat (get_ebits kind + 1) \<le> unat maxbits \<or> zero_block bs fblock \<longrightarrow>
         (\<forall>bw. zfp_encode_block conv kind min_exp bs perm fblock maxbits block_idx stream = Some bw
              \<longrightarrow> stays_in_block stream maxbits block_idx bw)"
    by (intro impI allI) (rule float_driver_in_block [OF nw z])
  have c3: "within_budget (unat maxbits) (BlockWriter_new stream maxbits block_idx) maxbits"
    by (rule new_within_budget [OF nw z])
  have c4: "\<forall>bw v. within_budget (unat maxbits) bw maxbits \<and> unat (get_ebits kind + 1) \<le> unat maxbits \<longrightarrow>
         within_budget (unat maxbits) (fst (write_bits bw v (get_ebits kind + 1)))
           (maxbits - (get_ebits kind + 1))"
    by (blast intro: header_within_budget)
  have c5: "\<forall>bw bits. within_budget (unat maxbits) bw bits \<longrightarrow>
         unat (m_current_bit bw) + unat bits \<le> unat maxbits
         \<and> unat (m_current_bit bw) \<le> unat maxbits"
    by (simp add: within_budget_def)
  have c6: "\<forall>bw bits c. within_budget (unat maxbits) bw bits \<and> bits \<noteq> 0 \<and> (c = 0 \<or> c = 1) \<longrightarrow>
         within_budget (unat maxbits) (fst (write_bit bw c)) (bits - 1)"
    by (blast intro: write_bit_within_budget)
  have c7: "\<forall>bw bits v n. within_budget (unat maxbits) bw bits \<and> unat n \<le> 64 \<longrightarrow>
         within_budget (unat maxbits) (fst (write_bits bw v (min n bits))) (bits - min n bits)"
    by (blast intro: write_bits_within_budget)
  have c8: "\<forall>bw bits x n. within_budget (unat maxbits) bw bits \<longrightarrow>
         within_budget (unat maxbits) (fst (encode_unary (BlockSize bs) (bw, bits, x, n)))
           (fst (snd (encode_unary (BlockSize bs) (bw, bits, x, n))))"
    by (blast intro: encode_unary_within_budget bs)
  have c9: "\<forall>bw bits x n. within_budget (unat maxbits) bw bits \<and> unat n \<le> BlockSize bs \<longrightarrow>
         within_budget (unat maxbits) (fst (encode_group (BlockSize bs) (bw, bits, x, n)))
           (fst (snd (encode_group (BlockSize bs) (bw, bits, x, n))))"
    by (blast intro: encode_group_within_budget bs)
  have c10: "\<forall>bw bits k n kmin (ublock :: 'a word list).
         within_budget (unat maxbits) bw bits \<and> unat n \<le> BlockSize bs \<longrightarrow>
         within_budget (unat maxbits) (fst (encode_planes (BlockSize bs) kmin ublock (bw, bits, k, n)))
           (fst (snd (encode_planes (BlockSize bs) kmin ublock (bw, bits, k, n))))"
    by (blast intro: encode_planes_within_budget bs)
  show ?thesis
    by (intro conjI c1 c2 c2' c3 c4 c5 c6 c7 c8 c9 c10)
qed

theorem encoder_stays_in_block_witness:
  "stays_in_block zero_stream 256 3
     (zfp_encode_block_int BS4 [0, 1, 2, 3] [- 1, 0, 0, 0 :: 32 word] 256 3 zero_stream)
   \<and> zfp_encode_block_double (- 1074) BS4 [0, 1, 2, 3] ones_block 32 0 zero_stream \<noteq> None
   \<and> stays_in_block zero_stream 32 0
       (the (zfp_encode_block_double (- 1074) BS4 [0, 1, 2, 3] ones_block 32 0 zero_stream))
   \<and> zfp_encode_block_double (- 1074) BS4 [0, 1, 2, 3] tiny_block 32 0 zero_stream \<noteq> None
   \<and> stays_in_block zero_stream 32 0
       (the (zfp_encode_block_double (- 1074) BS4 [0, 1, 2, 3] tiny_block 32 0 zero_stream))
   \<and> m_current_bit (the (zfp_encode_block_double (- 1074) BS4 [0, 1, 2, 3] tiny_block 32 0 zero_stream)) = 32
   \<and> take_bit 12 (m_stream (the (zfp_encode_block_double (- 1074) BS4 [0, 1, 2, 3] tiny_block 32 0
        zero_stream)) 0) = 55
   \<and> zfp_encode_block (indefinite :: undefined_cast \<Rightarrow> 64 word) Float64 (- 1074) BS4 [0, 1, 2, 3]
        tiny_block 32 0 zero_stream \<noteq> None
   \<and> stays_in_block zero_stream 32 0
       (the (zfp_encode_block (indefinite :: undefined_cast \<Rightarrow> 64 word) Float64 (- 1074) BS4 [0, 1, 2, 3]
          tiny_block 32 0 zero_stream))
   \<and> m_stream (the (zfp_encode_block (indefinite :: undefined_cast \<Rightarrow> 64 word) Float64 (- 1074) BS4
        [0, 1, 2, 3] tiny_block 32 0 zero_stream)) 0 = 5558327
   \<and> within_budget 256 (BlockWriter_new zero_stream 256 3) 256"
proof -
  have a: "unat (3 :: uint) * unat (256 :: cint) + unat (256 :: cint) < 2 ^ 32"
    by simp
  have za: "\<forall>j. unat (3 :: uint) * unat (256 :: cint) \<le> j
              \<and> j < unat (3 :: uint) * unat (256 :: cint) + unat (256 :: cint)
              \<longrightarrow> \<not> gbit zero_stream j"
    by simp
  have b: "unat (0 :: uint) * unat (32 :: cint) + unat (32 :: cint) < 2 ^ 32"
    by simp
  have zb: "\<forall>j. unat (0 :: uint) * unat (32 :: cint) \<le> j
              \<and> j < unat (0 :: uint) * unat (32 :: cint) + unat (32 :: cint)
              \<longrightarrow> \<not> gbit zero_stream j"
    by simp
  note ta = encoder_stays_in_block [OF a za, where bs = BS4 and perm = "[0, 1, 2, 3]"
      and iblock = "[- 1, 0, 0, 0 :: 32 word]"]
  note tb = encoder_stays_in_block [OF b zb, where bs = BS4 and perm = "[0, 1, 2, 3]"
      and iblock = "[] :: 32 word list" and kind = Float64 and min_exp = "- 1074"
      and conv = "saturate :: undefined_cast \<Rightarrow> 64 word",
      THEN conjunct2, THEN conjunct1, THEN mp]
  have f1: "finite_block Float64 BS4 ones_block"
    by (simp add: finite_block_def ones_block_def one_double_def is_finite_def nth_Cons' del: One_nat_def)
  have h1: "finite_block Float64 BS4 ones_block \<and> unat (get_ebits Float64 + 1) \<le> unat (32 :: cint)
            \<or> zero_block BS4 ones_block"
    using f1 by simp
  have h2: "finite_block Float64 BS4 tiny_block \<and> unat (get_ebits Float64 + 1) \<le> unat (32 :: cint)
            \<or> zero_block BS4 tiny_block"
    using tiny_block_finite by simp
  have c1: "stays_in_block zero_stream 256 3
          (zfp_encode_block_int BS4 [0, 1, 2, 3] [- 1, 0, 0, 0 :: 32 word] 256 3 zero_stream)"
    by (rule ta [THEN conjunct1])
  have "within_budget (unat (256 :: cint)) (BlockWriter_new zero_stream 256 3) 256"
    by (rule ta [THEN conjunct2, THEN conjunct2, THEN conjunct2, THEN conjunct1])
  then have c3: "within_budget 256 (BlockWriter_new zero_stream 256 3) 256"
    by simp
  from tb [OF h1] obtain bw1
    where "zfp_encode_block_double (- 1074) BS4 [0, 1, 2, 3] ones_block 32 0 zero_stream = Some bw1"
      and "stays_in_block zero_stream 32 0 bw1"
    unfolding zfp_encode_block_double_def by blast
  then have c2: "zfp_encode_block_double (- 1074) BS4 [0, 1, 2, 3] ones_block 32 0 zero_stream \<noteq> None
      \<and> stays_in_block zero_stream 32 0
          (the (zfp_encode_block_double (- 1074) BS4 [0, 1, 2, 3] ones_block 32 0 zero_stream))"
    by simp
  from tb [OF h2] obtain bw2
    where "zfp_encode_block_double (- 1074) BS4 [0, 1, 2, 3] tiny_block 32 0 zero_stream = Some bw2"
      and "stays_in_block zero_stream 32 0 bw2"
    unfolding zfp_encode_block_double_def by blast
  then have c4: "zfp_encode_block_double (- 1074) BS4 [0, 1, 2, 3] tiny_block 32 0 zero_stream \<noteq> None
      \<and> stays_in_block zero_stream 32 0
          (the (zfp_encode_block_double (- 1074) BS4 [0, 1, 2, 3] tiny_block 32 0 zero_stream))"
    by simp
  have t: "take_bit 12 (360570935 :: Word) = 55"
    by simp
  have c5: "take_bit 12 (m_stream (the (zfp_encode_block_double (- 1074) BS4 [0, 1, 2, 3] tiny_block 32 0
        zero_stream)) 0) = 55"
    unfolding tiny_32(3) by (rule t)
  note td = encoder_stays_in_block [OF b zb, where bs = BS4 and perm = "[0, 1, 2, 3]"
      and iblock = "[] :: 32 word list" and kind = Float64 and min_exp = "- 1074"
      and conv = "indefinite :: undefined_cast \<Rightarrow> 64 word",
      THEN conjunct2, THEN conjunct1, THEN mp]
  from td [OF h2] obtain bw3
    where "zfp_encode_block (indefinite :: undefined_cast \<Rightarrow> 64 word) Float64 (- 1074) BS4 [0, 1, 2, 3]
             tiny_block 32 0 zero_stream = Some bw3"
      and "stays_in_block zero_stream 32 0 bw3"
    by blast
  then have c6: "zfp_encode_block (indefinite :: undefined_cast \<Rightarrow> 64 word) Float64 (- 1074) BS4 [0, 1, 2, 3]
        tiny_block 32 0 zero_stream \<noteq> None
      \<and> stays_in_block zero_stream 32 0
          (the (zfp_encode_block (indefinite :: undefined_cast \<Rightarrow> 64 word) Float64 (- 1074) BS4 [0, 1, 2, 3]
             tiny_block 32 0 zero_stream))"
    by simp
  from c1 c2 c4 tiny_32(2) c5 c6 tiny_32_host(2) c3 show ?thesis
    by blast
qed

section \<open>A budget of zero bits (C2)\<close>

text \<open>
  C2 as stated fails for the floating-point driver, which writes the exponent
  header of a block that is not all zero before it looks at the budget, and
  then encodes with the budget \<open>0 - (ebits + 1)\<close> read as a \<^verbatim>\<open>uint\<close>: with
  \<open>maxbits = 0\<close> the four doubles 1.0 put 140 bits into an empty stream.
\<close>

theorem zero_budget_float_writes:
  "zfp_encode_block_double (- 1074) BS4 [0, 1, 2, 3] ones_block 0 0 zero_stream \<noteq> None
   \<and> m_current_bit (the (zfp_encode_block_double (- 1074) BS4 [0, 1, 2, 3] ones_block 0 0 zero_stream)) = 140
   \<and> m_stream (the (zfp_encode_block_double (- 1074) BS4 [0, 1, 2, 3] ones_block 0 0 zero_stream)) 0 = 92161
   \<and> zero_stream 0 = 0"
  by (simp add: ones_0 zero_stream_def del: One_nat_def)

text \<open>
  C2, amended.  For every integer block and every block index, the block
  encoder called with \<open>maxbits = 0\<close> writes no bits: it returns the new writer,
  whose stream is the stream it was given and whose \<open>current_bit\<close> is 0.  The
  floating-point driver called with \<open>maxbits = 0\<close> does so for a block that is
  all zero.
\<close>

theorem zero_budget_writes_nothing:
  fixes iblock :: "'a::len word list"
  shows "zfp_encode_block_int bs perm iblock 0 block_idx stream = BlockWriter_new stream 0 block_idx
    \<and> m_stream (zfp_encode_block_int bs perm iblock 0 block_idx stream) = stream
    \<and> m_current_bit (zfp_encode_block_int bs perm iblock 0 block_idx stream) = 0
    \<and> (zero_block bs fblock \<longrightarrow>
         zfp_encode_block (conv :: undefined_cast \<Rightarrow> 'b::len word) kind min_exp bs perm fblock 0 block_idx stream
           = Some (BlockWriter_new stream 0 block_idx))"
proof -
  have "zero_block bs fblock \<longrightarrow>
         zfp_encode_block (conv :: undefined_cast \<Rightarrow> 'b::len word) kind min_exp bs perm fblock 0 block_idx stream
           = Some (BlockWriter_new stream 0 block_idx)"
    unfolding zero_block_def by (blast intro: zero_block_unwritten)
  then show ?thesis
    by (simp add: int_driver_zero_budget new_writer_fields)
qed

theorem zero_budget_writes_nothing_witness:
  "m_stream (zfp_encode_block_int BS4 [0, 1, 2, 3] [- 1, 0, 0, 0 :: 32 word] 0 5 zero_stream) = zero_stream
   \<and> m_current_bit (zfp_encode_block_int BS4 [0, 1, 2, 3] [- 1, 0, 0, 0 :: 32 word] 0 5 zero_stream) = 0
   \<and> zfp_encode_block_double (- 1074) BS4 [0, 1, 2, 3] [fp_zero, fp_zero, fp_zero, fp_zero] 0 5 zero_stream
       = Some (BlockWriter_new zero_stream 0 5)"
  using zero_budget_writes_nothing [where bs = BS4 and perm = "[0, 1, 2, 3]"
      and iblock = "[- 1, 0, 0, 0 :: 32 word]" and block_idx = 5 and stream = zero_stream
      and conv = "saturate :: undefined_cast \<Rightarrow> 64 word" and kind = Float64 and min_exp = "- 1074"
      and fblock = "[fp_zero, fp_zero, fp_zero, fp_zero]"]
    zero_block_fp_zero
  by (simp add: zfp_encode_block_double_def new_writer_fields)

section \<open>The exponent of a block (C4)\<close>

text \<open>
  C4 as stated fails: \<^verbatim>\<open>exponent\<close> takes the exponent from \<^verbatim>\<open>frexp\<close>, whose
  mantissa is in \<open>[1/2, 1)\<close>, so \<open>exponent(1.0) = 1\<close>.  The block of four doubles
  1.0 has \<open>emax = 1\<close>, not 0, and the 12 header bits written for it hold
  \<open>2 * 1024 + 1 = 2049\<close>, not 2047.
\<close>

theorem ones_block_header:
  "valof Float64 one_double = 1
   \<and> exponent Float64 one_double = Some 1
   \<and> max_exponent Float64 BS4 ones_block = Some 1
   \<and> max_exponent Float64 BS4 ones_block \<noteq> Some 0
   \<and> take_bit 12 (m_stream (the (zfp_encode_block_double (- 1074) BS4 [0, 1, 2, 3] ones_block 32 0
        zero_stream)) 0) = 2049
   \<and> take_bit 12 (m_stream (the (zfp_encode_block_double (- 1074) BS4 [0, 1, 2, 3] ones_block 32 0
        zero_stream)) 0) \<noteq> 2047"
proof -
  let ?r = "zfp_encode_block_double (- 1074) BS4 [0, 1, 2, 3] ones_block 32 0 zero_stream"
  have s: "m_stream (the ?r) 0 = 92161"
    by (rule ones_32)
  have t: "take_bit 12 (92161 :: Word) = 2049"
    by simp
  have "take_bit 12 (m_stream (the ?r) 0) = 2049"
    unfolding s by (rule t)
  moreover from this have "take_bit 12 (m_stream (the ?r) 0) \<noteq> 2047"
    by (simp del: One_nat_def)
  ultimately show ?thesis
    by (simp add: one_double_value one_double_exponent ones_block_emax del: One_nat_def)
qed

text \<open>
  C4, amended.  \<^verbatim>\<open>exponent(x)\<close> for a finite positive \<open>x\<close> returns
  \<open>max(e, 1 - ebias)\<close> for the \<open>e\<close> with \<open>x = m * 2 ^ e\<close> and \<open>1/2 \<le> m < 1\<close>;
  consequently encoding the block of four doubles 1.0 computes \<open>emax = 1\<close> and
  the biased exponent 1024, and writes the header value \<open>2 * 1024 + 1 = 2049\<close>
  in \<open>ebits + 1 = 12\<close> bits (with \<open>maxbits = 32\<close>, as block 0 of an empty
  stream, the 32 bits of the budget are all used).
\<close>

theorem exponent_frexp:
  assumes "fp_less kind fp_zero x" and "is_finite kind x"
  shows "1 / 2 \<le> valof kind x / 2 powi frexp_exp kind x
    \<and> valof kind x / 2 powi frexp_exp kind x < 1
    \<and> (\<exists>r. exponent kind x = Some r
           \<and> sint r = max (frexp_exp kind x) (1 - sint (get_ebias kind)))
    \<and> valof Float64 one_double = 1
    \<and> max_exponent Float64 BS4 ones_block = Some 1
    \<and> get_ebits Float64 + 1 = 12
    \<and> zfp_encode_block_double (- 1074) BS4 [0, 1, 2, 3] ones_block 32 0 zero_stream \<noteq> None
    \<and> take_bit 12 (m_stream (the (zfp_encode_block_double (- 1074) BS4 [0, 1, 2, 3] ones_block 32 0
         zero_stream)) 0) = 2 * 1024 + 1
    \<and> m_current_bit (the (zfp_encode_block_double (- 1074) BS4 [0, 1, 2, 3] ones_block 32 0
         zero_stream)) = 32"
proof -
  let ?r = "zfp_encode_block_double (- 1074) BS4 [0, 1, 2, 3] ones_block 32 0 zero_stream"
  have s: "m_stream (the ?r) 0 = 92161"
    by (rule ones_32)
  have t: "take_bit 12 (92161 :: Word) = 2 * 1024 + 1"
    by simp
  have h: "take_bit 12 (m_stream (the ?r) 0) = 2 * 1024 + 1"
    unfolding s by (rule t)
  have e: "get_ebits Float64 + 1 = 12"
    by simp
  from frexp_mantissa [OF assms(1)] exponent_value [OF assms] one_double_value ones_block_emax
    e ones_32(1) h ones_32(2)
  show ?thesis
    by (intro conjI)
qed

theorem exponent_frexp_witness:
  "1 / 2 \<le> valof Float64 one_double / 2 powi frexp_exp Float64 one_double
   \<and> valof Float64 one_double / 2 powi frexp_exp Float64 one_double < 1
   \<and> frexp_exp Float64 one_double = 1
   \<and> exponent Float64 one_double = Some 1"
  using exponent_frexp [OF one_double_positive]
  by (simp add: one_double_frexp one_double_exponent)

section \<open>Truncation (C8)\<close>

text \<open>
  C8.  The bits a driver produces are those between the start of its block
  and its cursor.  For every integer block and budgets \<open>b \<le> B\<close>, the bits
  produced with budget \<open>b\<close> are a prefix of those produced with budget \<open>B\<close>;
  \<open>B\<close> may be any larger budget, in particular one that is never used up.
  The same holds for every floating-point block of finite values, whatever the
  platform stores for a conversion that C++ leaves undefined, when the budget
  \<open>b\<close> has room for the header, and for every \<open>b\<close> against a budget \<open>B\<close> of at
  least \<open>unlimited\<close> bits, which no block uses up: both runs return and the
  first output is a prefix of the second.  For a block with a NaN or an
  infinity the two runs give a result or none together (none when the largest
  magnitude is an infinity), and results are in the same relation.
  The encoders start on an empty stream, and the positions of the larger
  budget do not wrap.
\<close>

theorem truncation_is_prefix:
  fixes iblock :: "'a::len word list"
  assumes le: "unat b \<le> unat B" and nw: "unat block_idx * unat B + unat B < 2 ^ 32"
  shows "prefix (emitted (zfp_encode_block_int bs perm iblock b block_idx zero_stream))
                (emitted (zfp_encode_block_int bs perm iblock B block_idx zero_stream))
    \<and> (finite_block kind bs fblock
         \<and> (unat (get_ebits kind + 1) \<le> unat b
            \<or> (unlimited TYPE('b) bs \<le> unat B
                \<and> unat block_idx * unat b + unlimited TYPE('b) bs < 2 ^ 32)) \<longrightarrow>
        (\<exists>bw1 bw2.
            zfp_encode_block (conv :: undefined_cast \<Rightarrow> 'b::len word) kind min_exp bs perm fblock
              b block_idx zero_stream = Some bw1
          \<and> zfp_encode_block conv kind min_exp bs perm fblock B block_idx zero_stream = Some bw2
          \<and> prefix (emitted bw1) (emitted bw2)))
    \<and> (unat (get_ebits kind + 1) \<le> unat b
         \<or> (unlimited TYPE('b) bs \<le> unat B
             \<and> unat block_idx * unat b + unlimited TYPE('b) bs < 2 ^ 32) \<longrightarrow>
        (case (zfp_encode_block conv kind min_exp bs perm fblock b block_idx zero_stream,
               zfp_encode_block conv kind min_exp bs perm fblock B block_idx zero_stream) of
           (Some bw1, Some bw2) \<Rightarrow> prefix (emitted bw1) (emitted bw2)
         | (None, None) \<Rightarrow> True
         | _ \<Rightarrow> False))"
proof (intro conjI impI)
  show "prefix (emitted (zfp_encode_block_int bs perm iblock b block_idx zero_stream))
               (emitted (zfp_encode_block_int bs perm iblock B block_idx zero_stream))"
    by (rule int_driver_prefix [OF le nw])
next
  assume "finite_block kind bs fblock
         \<and> (unat (get_ebits kind + 1) \<le> unat b
            \<or> (unlimited TYPE('b) bs \<le> unat B
                \<and> unat block_idx * unat b + unlimited TYPE('b) bs < 2 ^ 32))"
  then show "\<exists>bw1 bw2.
            zfp_encode_block (conv :: undefined_cast \<Rightarrow> 'b::len word) kind min_exp bs perm fblock
              b block_idx zero_stream = Some bw1
          \<and> zfp_encode_block conv kind min_exp bs perm fblock B block_idx zero_stream = Some bw2
          \<and> prefix (emitted bw1) (emitted bw2)"
    using float_driver_prefix_total [OF le nw] by blast
next
  assume "unat (get_ebits kind + 1) \<le> unat b
         \<or> (unlimited TYPE('b) bs \<le> unat B
             \<and> unat block_idx * unat b + unlimited TYPE('b) bs < 2 ^ 32)"
  then show "case (zfp_encode_block conv kind min_exp bs perm fblock b block_idx zero_stream,
               zfp_encode_block conv kind min_exp bs perm fblock B block_idx zero_stream) of
           (Some bw1, Some bw2) \<Rightarrow> prefix (emitted bw1) (emitted bw2)
         | (None, None) \<Rightarrow> True
         | _ \<Rightarrow> False"
    by (rule float_driver_prefix [OF le nw])
qed

theorem truncation_is_prefix_witness:
  "prefix (emitted (zfp_encode_block_int BS4 [0, 1, 2, 3] [- 1, 0, 0, 0 :: 32 word] 16 0 zero_stream))
          (emitted (zfp_encode_block_int BS4 [0, 1, 2, 3] [- 1, 0, 0, 0 :: 32 word] 1024 0 zero_stream))
   \<and> zfp_encode_block_double (- 1074) BS4 [0, 1, 2, 3] ones_block 8 0 zero_stream \<noteq> None
   \<and> zfp_encode_block_double (- 1074) BS4 [0, 1, 2, 3] ones_block 1024 0 zero_stream \<noteq> None
   \<and> prefix (emitted (the (zfp_encode_block_double (- 1074) BS4 [0, 1, 2, 3] ones_block 8 0 zero_stream)))
            (emitted (the (zfp_encode_block_double (- 1074) BS4 [0, 1, 2, 3] ones_block 1024 0 zero_stream)))
   \<and> zfp_encode_block_double (- 1074) BS4 [0, 1, 2, 3] tiny_block 16 0 zero_stream \<noteq> None
   \<and> zfp_encode_block_double (- 1074) BS4 [0, 1, 2, 3] tiny_block 1024 0 zero_stream \<noteq> None
   \<and> prefix (emitted (the (zfp_encode_block_double (- 1074) BS4 [0, 1, 2, 3] tiny_block 16 0 zero_stream)))
            (emitted (the (zfp_encode_block_double (- 1074) BS4 [0, 1, 2, 3] tiny_block 1024 0 zero_stream)))"
proof -
  have a: "unat (16 :: cint) \<le> unat (1024 :: cint)"
    and b: "unat (8 :: cint) \<le> unat (1024 :: cint)"
    and nw: "unat (0 :: uint) * unat (1024 :: cint) + unat (1024 :: cint) < 2 ^ 32"
    by simp_all
  have f1: "finite_block Float64 BS4 ones_block"
    by (simp add: finite_block_def ones_block_def one_double_def is_finite_def nth_Cons' del: One_nat_def)
  have h1: "finite_block Float64 BS4 ones_block
            \<and> (unat (get_ebits Float64 + 1) \<le> unat (8 :: cint)
               \<or> (unlimited TYPE(64) BS4 \<le> unat (1024 :: cint)
                   \<and> unat (0 :: uint) * unat (8 :: cint) + unlimited TYPE(64) BS4 < 2 ^ 32))"
    using f1 by (simp add: unlimited_def)
  have h2: "finite_block Float64 BS4 tiny_block
            \<and> (unat (get_ebits Float64 + 1) \<le> unat (16 :: cint)
               \<or> (unlimited TYPE(64) BS4 \<le> unat (1024 :: cint)
                   \<and> unat (0 :: uint) * unat (16 :: cint) + unlimited TYPE(64) BS4 < 2 ^ 32))"
    using tiny_block_finite by simp
  note ta = truncation_is_prefix [OF a nw, where bs = BS4 and perm = "[0, 1, 2, 3]"
      and iblock = "[- 1, 0, 0, 0 :: 32 word]"]
  note tb = truncation_is_prefix [OF b nw, where bs = BS4 and perm = "[0, 1, 2, 3]"
      and iblock = "[] :: 32 word list" and kind = Float64 and min_exp = "- 1074"
      and conv = "saturate :: undefined_cast \<Rightarrow> 64 word",
      THEN conjunct2, THEN conjunct1, THEN mp]
  note tc = truncation_is_prefix [OF a nw, where bs = BS4 and perm = "[0, 1, 2, 3]"
      and iblock = "[] :: 32 word list" and kind = Float64 and min_exp = "- 1074"
      and conv = "saturate :: undefined_cast \<Rightarrow> 64 word",
      THEN conjunct2, THEN conjunct1, THEN mp]
  have c1: "prefix (emitted (zfp_encode_block_int BS4 [0, 1, 2, 3] [- 1, 0, 0, 0 :: 32 word] 16 0 zero_stream))
          (emitted (zfp_encode_block_int BS4 [0, 1, 2, 3] [- 1, 0, 0, 0 :: 32 word] 1024 0 zero_stream))"
    by (rule ta [THEN conjunct1])
  from tb [OF h1] obtain bw1 bw2
    where "zfp_encode_block_double (- 1074) BS4 [0, 1, 2, 3] ones_block 8 0 zero_stream = Some bw1"
      and "zfp_encode_block_double (- 1074) BS4 [0, 1, 2, 3] ones_block 1024 0 zero_stream = Some bw2"
      and "prefix (emitted bw1) (emitted bw2)"
    unfolding zfp_encode_block_double_def by blast
  then have c2: "zfp_encode_block_double (- 1074) BS4 [0, 1, 2, 3] ones_block 8 0 zero_stream \<noteq> None
      \<and> zfp_encode_block_double (- 1074) BS4 [0, 1, 2, 3] ones_block 1024 0 zero_stream \<noteq> None
      \<and> prefix (emitted (the (zfp_encode_block_double (- 1074) BS4 [0, 1, 2, 3] ones_block 8 0 zero_stream)))
            (emitted (the (zfp_encode_block_double (- 1074) BS4 [0, 1, 2, 3] ones_block 1024 0 zero_stream)))"
    by simp
  from tc [OF h2] obtain bw3 bw4
    where "zfp_encode_block_double (- 1074) BS4 [0, 1, 2, 3] tiny_block 16 0 zero_stream = Some bw3"
      and "zfp_encode_block_double (- 1074) BS4 [0, 1, 2, 3] tiny_block 1024 0 zero_stream = Some bw4"
      and "prefix (emitted bw3) (emitted bw4)"
    unfolding zfp_encode_block_double_def by blast
  then have c3: "zfp_encode_block_double (- 1074) BS4 [0, 1, 2, 3] tiny_block 16 0 zero_stream \<noteq> None
      \<and> zfp_encode_block_double (- 1074) BS4 [0, 1, 2, 3] tiny_block 1024 0 zero_stream \<noteq> None
      \<and> prefix (emitted (the (zfp_encode_block_double (- 1074) BS4 [0, 1, 2, 3] tiny_block 16 0 zero_stream)))
            (emitted (the (zfp_encode_block_double (- 1074) BS4 [0, 1, 2, 3] tiny_block 1024 0 zero_stream)))"
    by simp
  from c1 c2 c3 show ?thesis
    by blast
qed

end
